theory Spec2Isabelle
  imports Main "HOL-Library.Word" "HOL-Library.AList" "HOL-Library.List_Lexorder"
begin

unbundle bit_operations_syntax

section \<open>Value model (ast.ts)\<close>

text \<open>
  The host types of the TypeScript sources: a \<^verbatim>\<open>Uint8Array\<close> is a list of bytes, a
  JavaScript string is a list of 16-bit code units, and a JavaScript number is an IEEE-754
  binary64, kept here as its 64-bit pattern (sign, 11 exponent bits, 52 fraction bits).
\<close>

type_synonym byte = "8 word"
type_synonym jsstring = "16 word list"
type_synonym number = "64 word"

text \<open>
  \<^verbatim>\<open>KodaValue = KodaObject | KodaArray | string | number | boolean | null\<close>.
  An object is the list of its own properties in the order \<^verbatim>\<open>Object.keys\<close> reports them,
  together with its prototype: \<^verbatim>\<open>Object.prototype\<close> for an object created by \<^verbatim>\<open>{}\<close>,
  \<^verbatim>\<open>null\<close>, or an array or object value that an assignment to \<^verbatim>\<open>__proto__\<close> installed.
  A well-formed object has pairwise distinct keys.
\<close>

datatype KodaValue =
    VNull
  | VBool bool
  | VNum number
  | VStr jsstring
  | VArr "KodaValue list"
  | VObj proto "(jsstring \<times> KodaValue) list"
and proto =
    ObjectPrototype
  | NullPrototype
  | ValuePrototype KodaValue

text \<open>An object while it is being built: its prototype and its own properties.\<close>

type_synonym object = "proto \<times> (jsstring \<times> KodaValue) list"

text \<open>A string literal of the theory as a JavaScript string (one code unit per character).\<close>

definition js :: "string \<Rightarrow> jsstring" where
  "js s = map of_char s"

text \<open>
  \<^verbatim>\<open>Object.keys\<close> lists the keys that are array indices first, in ascending numeric order,
  and then the other keys in the order they were created. An array index is a decimal
  numeral without a leading zero (or \<^verbatim>\<open>"0"\<close>) whose value is at most \<open>2^32 - 2\<close>.
\<close>

definition isDigit :: "16 word \<Rightarrow> bool" where
  "isDigit c = (0x30 \<le> c \<and> c \<le> 0x39)"

definition decimalValue :: "jsstring \<Rightarrow> nat" where
  "decimalValue s = foldl (\<lambda>a c. a * 10 + (unat c - 48)) 0 s"

definition arrayIndex :: "jsstring \<Rightarrow> nat option" where
  "arrayIndex s =
     (if s = [] \<or> \<not> list_all isDigit s \<or> (1 < length s \<and> hd s = 0x30) then None
      else if decimalValue s \<le> 4294967294 then Some (decimalValue s)
      else None)"

fun insertIndexed :: "nat \<Rightarrow> jsstring \<Rightarrow> KodaValue \<Rightarrow> (jsstring \<times> KodaValue) list \<Rightarrow> (jsstring \<times> KodaValue) list" where
  "insertIndexed n key v [] = [(key, v)]"
| "insertIndexed n key v ((k, w) # kvs) =
     (case arrayIndex k of
        Some m \<Rightarrow> if m < n then (k, w) # insertIndexed n key v kvs else (key, v) # (k, w) # kvs
      | None \<Rightarrow> (key, v) # (k, w) # kvs)"

text \<open>A new own property \<open>key\<close> takes its place in the order of \<^verbatim>\<open>Object.keys\<close>.\<close>

definition insertOwn :: "jsstring \<Rightarrow> KodaValue \<Rightarrow> (jsstring \<times> KodaValue) list \<Rightarrow> (jsstring \<times> KodaValue) list" where
  "insertOwn key v kvs =
     (case arrayIndex key of
        None \<Rightarrow> kvs @ [(key, v)]
      | Some n \<Rightarrow> insertIndexed n key v kvs)"

text \<open>
  What an assignment to the key \<^verbatim>\<open>__proto__\<close> finds when the object has no own property
  of that name and the search goes up the prototype chain: the accessor of
  \<^verbatim>\<open>Object.prototype\<close> (arrays inherit it through \<^verbatim>\<open>Array.prototype\<close>), an own data
  property \<^verbatim>\<open>__proto__\<close> of an object in the chain, or nothing when the chain ends in
  \<^verbatim>\<open>null\<close>. Only arrays and objects become prototypes.
\<close>

definition protoKey :: jsstring where
  "protoKey = js ''__proto__''"

datatype found = FoundSetter | FoundData | FoundNothing

fun protoLookup :: "proto \<Rightarrow> found" where
  "protoLookup ObjectPrototype = FoundSetter"
| "protoLookup NullPrototype = FoundNothing"
| "protoLookup (ValuePrototype (VObj q kvs)) =
     (if protoKey \<in> fst ` set kvs then FoundData else protoLookup q)"
| "protoLookup (ValuePrototype v) = FoundSetter"

text \<open>
  The assignment \<^verbatim>\<open>obj[key] = value\<close> on an ordinary object. An existing own property
  keeps its place and takes the new value. Otherwise every property that the prototype
  chain can hold here is a writable data property, so a new own property is created; the
  one exception is the accessor \<^verbatim>\<open>__proto__\<close> of \<^verbatim>\<open>Object.prototype\<close>, whose setter
  replaces the prototype when the value is an array, an object or \<^verbatim>\<open>null\<close>, and does
  nothing for any other value.
\<close>

definition setProp :: "object \<Rightarrow> jsstring \<Rightarrow> KodaValue \<Rightarrow> object" where
  "setProp obj key v =
     (if key \<in> fst ` set (snd obj) then (fst obj, AList.update key v (snd obj))
      else if key = protoKey \<and> protoLookup (fst obj) = FoundSetter then
        (case v of
           VObj q kvs \<Rightarrow> (ValuePrototype v, snd obj)
         | VArr xs \<Rightarrow> (ValuePrototype v, snd obj)
         | VNull \<Rightarrow> (NullPrototype, snd obj)
         | _ \<Rightarrow> obj)
      else (fst obj, insertOwn key v (snd obj)))"

text \<open>\<^verbatim>\<open>Object.prototype.hasOwnProperty.call(obj, key)\<close>\<close>

definition hasOwnProperty :: "object \<Rightarrow> jsstring \<Rightarrow> bool" where
  "hasOwnProperty obj key = (key \<in> fst ` set (snd obj))"

section \<open>Errors (errors.ts)\<close>

text \<open>
  The messages of the decoder, the encoder and the text parsers. A decode or encode error
  carries the byte offset it was raised at. \<open>HostTypeError\<close> is the \<^verbatim>\<open>TypeError\<close> that the
  host's \<^verbatim>\<open>TextDecoder('utf-8', {fatal: true})\<close> throws; it is no KodaError and has no
  offset. Source positions of parse errors are left out of the model.
\<close>

datatype message =
    Truncated_input
  | Invalid_magic_number
  | Unsupported_version nat
  | Dictionary_too_large
  | Key_string_too_long
  | String_too_long
  | Binary_type_not_supported
  | Invalid_key_index
  | Unknown_type_tag nat
  | Maximum_nesting_depth_exceeded
  | Trailing_bytes_after_root_value
  | Key_not_in_dictionary

text \<open>The messages of the lexer and of the two text parsers.\<close>

datatype parse_message =
    Input_exceeds_maximum_length
  | Unclosed_multi_line_comment
  | Unclosed_string
  | Incomplete_u_escape
  | Invalid_u_escape
  | Invalid_escape_sequence
  | Control_character_in_string
  | Expected_identifier_or_keyword
  | Invalid_number_leading_zero
  | Invalid_number_expected_digits
  | Invalid_number
  | Invalid_float
  | Invalid_exponent
  | Integer_out_of_range
  | Unexpected_character
  | Unexpected_token
  | Expected_key
  | Expected_token
  | Expected_end_of_input
  | Duplicate_key
  | Maximum_nesting_depth

text \<open>
  \<open>ModelOutOfFuel\<close> is not an error of the program: it is the value of a function of the
  model whose bound on the recursion was too small.
\<close>

datatype error =
    KodaDecodeError message nat
  | KodaEncodeError message nat
  | KodaParseError parse_message
  | HostTypeError
  | ModelOutOfFuel

section \<open>Host library: numbers and UTF-8\<close>

subsection \<open>Big-endian integers (DataView)\<close>

primrec be_bytes :: "nat \<Rightarrow> nat \<Rightarrow> byte list" where
  "be_bytes 0 n = []"
| "be_bytes (Suc k) n = be_bytes k (n div 256) @ [of_nat n]"

definition be_nat :: "byte list \<Rightarrow> nat" where
  "be_nat bs = foldl (\<lambda>a b. a * 256 + unat b) 0 bs"

text \<open>\<^verbatim>\<open>setUint32(0, n, false)\<close> stores \<open>n\<close> modulo \<open>2^32\<close>.\<close>

definition u32be :: "nat \<Rightarrow> byte list" where
  "u32be n = be_bytes 4 n"

definition i64be :: "int \<Rightarrow> byte list" where
  "i64be n = be_bytes 8 (unat (word_of_int n :: 64 word))"

definition f64be :: "number \<Rightarrow> byte list" where
  "f64be w = be_bytes 8 (unat w)"

subsection \<open>Numbers\<close>

text \<open>
  \<open>safeInteger w\<close> is \<open>Some n\<close> exactly when \<^verbatim>\<open>Number.isInteger(w)\<close> holds and \<open>w\<close> lies
  between \<^verbatim>\<open>Number.MIN_SAFE_INTEGER\<close> and \<^verbatim>\<open>Number.MAX_SAFE_INTEGER\<close>; then \<open>n\<close> is
  \<^verbatim>\<open>BigInt(w)\<close>. Both zeros give \<open>0\<close>.
\<close>

definition safeInteger :: "number \<Rightarrow> int option" where
  "safeInteger w =
     (let u = unat w; s = u div 2 ^ 63; e = (u div 2 ^ 52) mod 2 ^ 11; m = u mod 2 ^ 52 in
      if e = 0 then (if m = 0 then Some 0 else None)
      else if e < 1023 \<or> 1075 < e then None
      else if (2 ^ 52 + m) mod 2 ^ (1075 - e) = 0
        then Some ((if s = 1 then - 1 else 1) * int ((2 ^ 52 + m) div 2 ^ (1075 - e)))
        else None)"

fun nbits :: "nat \<Rightarrow> nat" where
  "nbits n = (if n = 0 then 0 else Suc (nbits (n div 2)))"

declare nbits.simps [simp del]

text \<open>\<^verbatim>\<open>Number(big)\<close>: the binary64 nearest to the integer, ties to even.\<close>

definition NumberOfBigInt :: "int \<Rightarrow> number" where
  "NumberOfBigInt n =
     (if n = 0 then 0
      else
        let a = nat \<bar>n\<bar>; k = nbits a - 1;
            kf = (if k \<le> 52 then (k, a * 2 ^ (52 - k))
                  else
                    let sh = k - 52; q = a div 2 ^ sh; r = a mod 2 ^ sh; half = 2 ^ (sh - 1);
                        q' = (if half < r \<or> (r = half \<and> odd q) then q + 1 else q)
                    in if q' = 2 ^ 53 then (k + 1, 2 ^ 52) else (k, q'));
            s = (if n < 0 then 1 else 0 :: nat)
        in of_nat (s * 2 ^ 63 + (1023 + fst kf) * 2 ^ 52 + (snd kf - 2 ^ 52)))"

text \<open>
  \<^verbatim>\<open>getFloat64\<close> returns the number with the bit pattern read; the payload of a NaN is
  kept, and written back unchanged by \<^verbatim>\<open>setFloat64\<close>.
\<close>

definition getFloat64 :: "byte list \<Rightarrow> number" where
  "getFloat64 bs = of_nat (be_nat bs)"

definition getBigInt64 :: "byte list \<Rightarrow> int" where
  "getBigInt64 bs = sint (of_nat (be_nat bs) :: 64 word)"

subsection \<open>TextEncoder and TextDecoder\<close>

definition isHigh :: "16 word \<Rightarrow> bool" where
  "isHigh c = (0xD800 \<le> c \<and> c \<le> 0xDBFF)"

definition isLow :: "16 word \<Rightarrow> bool" where
  "isLow c = (0xDC00 \<le> c \<and> c \<le> 0xDFFF)"

text \<open>
  The code points of a string as \<^verbatim>\<open>TextEncoder.encode\<close> reads it: a surrogate pair is one
  code point, a surrogate outside a pair becomes U+FFFD.
\<close>

fun codePoints :: "jsstring \<Rightarrow> nat list" where
  "codePoints [] = []"
| "codePoints [c] = [if isHigh c \<or> isLow c then 0xFFFD else unat c]"
| "codePoints (c # d # r) =
     (if isHigh c \<and> isLow d
      then (0x10000 + (unat c - 0xD800) * 0x400 + (unat d - 0xDC00)) # codePoints r
      else (if isHigh c \<or> isLow c then 0xFFFD else unat c) # codePoints (d # r))"

definition utf8OfCodePoint :: "nat \<Rightarrow> byte list" where
  "utf8OfCodePoint cp =
     (if cp < 0x80 then [of_nat cp]
      else if cp < 0x800 then [of_nat (0xC0 + cp div 64), of_nat (0x80 + cp mod 64)]
      else if cp < 0x10000 then
        [of_nat (0xE0 + cp div 4096), of_nat (0x80 + (cp div 64) mod 64), of_nat (0x80 + cp mod 64)]
      else
        [of_nat (0xF0 + cp div 262144), of_nat (0x80 + (cp div 4096) mod 64),
         of_nat (0x80 + (cp div 64) mod 64), of_nat (0x80 + cp mod 64)])"

text \<open>\<^verbatim>\<open>new TextEncoder().encode(s)\<close>\<close>

definition encodeUtf8 :: "jsstring \<Rightarrow> byte list" where
  "encodeUtf8 s = concat (map utf8OfCodePoint (codePoints s))"

definition isCont :: "byte \<Rightarrow> bool" where
  "isCont b = (0x80 \<le> b \<and> b \<le> 0xBF)"

text \<open>
  The UTF-8 decoder of the Encoding Standard in fatal mode: \<open>None\<close> on an ill-formed
  sequence (overlong forms, surrogates, code points above U+10FFFF, truncated sequences).
\<close>

fun utf8CodePoints :: "byte list \<Rightarrow> nat list option" where
  "utf8CodePoints [] = Some []"
| "utf8CodePoints (b # bs) =
     (if b < 0x80 then map_option ((#) (unat b)) (utf8CodePoints bs)
      else if 0xC2 \<le> b \<and> b \<le> 0xDF then
        (case bs of
           b1 # r \<Rightarrow>
             if isCont b1
             then map_option ((#) ((unat b - 0xC0) * 64 + (unat b1 - 0x80))) (utf8CodePoints r)
             else None
         | _ \<Rightarrow> None)
      else if 0xE0 \<le> b \<and> b \<le> 0xEF then
        (case bs of
           b1 # b2 # r \<Rightarrow>
             if (if b = 0xE0 then 0xA0 else 0x80) \<le> b1 \<and> b1 \<le> (if b = 0xED then 0x9F else 0xBF)
                \<and> isCont b2
             then map_option
                    ((#) ((unat b - 0xE0) * 4096 + (unat b1 - 0x80) * 64 + (unat b2 - 0x80)))
                    (utf8CodePoints r)
             else None
         | _ \<Rightarrow> None)
      else if 0xF0 \<le> b \<and> b \<le> 0xF4 then
        (case bs of
           b1 # b2 # b3 # r \<Rightarrow>
             if (if b = 0xF0 then 0x90 else 0x80) \<le> b1 \<and> b1 \<le> (if b = 0xF4 then 0x8F else 0xBF)
                \<and> isCont b2 \<and> isCont b3
             then map_option
                    ((#) ((unat b - 0xF0) * 262144 + (unat b1 - 0x80) * 4096
                          + (unat b2 - 0x80) * 64 + (unat b3 - 0x80)))
                    (utf8CodePoints r)
             else None
         | _ \<Rightarrow> None)
      else None)"

definition utf16OfCodePoint :: "nat \<Rightarrow> jsstring" where
  "utf16OfCodePoint cp =
     (if cp < 0x10000 then [of_nat cp]
      else [of_nat (0xD800 + (cp - 0x10000) div 0x400), of_nat (0xDC00 + (cp - 0x10000) mod 0x400)])"

text \<open>
  \<^verbatim>\<open>new TextDecoder('utf-8', { fatal: true }).decode(bytes)\<close>. The decoder is created
  without \<^verbatim>\<open>ignoreBOM\<close>, so a leading byte order mark U+FEFF is not part of the result.
\<close>

definition textDecode :: "byte list \<Rightarrow> jsstring option" where
  "textDecode bs =
     (case utf8CodePoints bs of
        None \<Rightarrow> None
      | Some cps \<Rightarrow>
          Some (concat (map utf16OfCodePoint (case cps of c # r \<Rightarrow> if c = 0xFEFF then r else cps | [] \<Rightarrow> []))))"

section \<open>Binary decoder (decoder.ts)\<close>

definition MAGIC :: "byte list" where
  "MAGIC = [0x4b, 0x4f, 0x44, 0x41]"

definition VERSION :: byte where
  "VERSION = 1"

text \<open>
  The closure variables of \<^verbatim>\<open>decode\<close> that never change once the dictionary is read; the
  read offset is passed along and returned.
\<close>

record decoder =
  dec_buffer :: "byte list"
  dec_maxDepth :: nat
  dec_maxStr :: nat
  dec_dictionary :: "jsstring list"

definition fail :: "message \<Rightarrow> nat \<Rightarrow> error + 'a" where
  "fail m offset = Inl (KodaDecodeError m offset)"

definition ensure :: "byte list \<Rightarrow> nat \<Rightarrow> nat \<Rightarrow> error + unit" where
  "ensure buffer offset n =
     (if offset + n > length buffer then fail Truncated_input offset else Inr ())"

definition readU8 :: "byte list \<Rightarrow> nat \<Rightarrow> error + (byte \<times> nat)" where
  "readU8 buffer offset =
     (case ensure buffer offset 1 of
        Inl e \<Rightarrow> Inl e
      | Inr _ \<Rightarrow> Inr (buffer ! offset, offset + 1))"

definition readU32 :: "byte list \<Rightarrow> nat \<Rightarrow> error + (nat \<times> nat)" where
  "readU32 buffer offset =
     (case ensure buffer offset 4 of
        Inl e \<Rightarrow> Inl e
      | Inr _ \<Rightarrow> Inr (be_nat (take 4 (drop offset buffer)), offset + 4))"

definition readI64 :: "byte list \<Rightarrow> nat \<Rightarrow> error + (int \<times> nat)" where
  "readI64 buffer offset =
     (case ensure buffer offset 8 of
        Inl e \<Rightarrow> Inl e
      | Inr _ \<Rightarrow> Inr (getBigInt64 (take 8 (drop offset buffer)), offset + 8))"

definition readF64 :: "byte list \<Rightarrow> nat \<Rightarrow> error + (number \<times> nat)" where
  "readF64 buffer offset =
     (case ensure buffer offset 8 of
        Inl e \<Rightarrow> Inl e
      | Inr _ \<Rightarrow> Inr (getFloat64 (take 8 (drop offset buffer)), offset + 8))"

definition readBytes :: "byte list \<Rightarrow> nat \<Rightarrow> nat \<Rightarrow> error + (byte list \<times> nat)" where
  "readBytes buffer offset n =
     (case ensure buffer offset n of
        Inl e \<Rightarrow> Inl e
      | Inr _ \<Rightarrow> Inr (take n (drop offset buffer), offset + n))"

definition decodeUtf8 :: "byte list \<Rightarrow> error + jsstring" where
  "decodeUtf8 bytes = (case textDecode bytes of None \<Rightarrow> Inl HostTypeError | Some s \<Rightarrow> Inr s)"

text \<open>The loop that fills \<^verbatim>\<open>dictionary\<close>; the first argument counts the entries still to read.\<close>

fun readDictionary ::
  "byte list \<Rightarrow> nat \<Rightarrow> nat \<Rightarrow> jsstring list \<Rightarrow> nat \<Rightarrow> error + (jsstring list \<times> nat)" where
  "readDictionary buffer maxStr 0 dict offset = Inr (dict, offset)"
| "readDictionary buffer maxStr (Suc n) dict offset =
     (case readU32 buffer offset of
        Inl e \<Rightarrow> Inl e
      | Inr (keyLen, o1) \<Rightarrow>
          if keyLen > maxStr then fail Key_string_too_long o1
          else
            (case readBytes buffer o1 keyLen of
               Inl e \<Rightarrow> Inl e
             | Inr (keyBytes, o2) \<Rightarrow>
                 (case decodeUtf8 keyBytes of
                    Inl e \<Rightarrow> Inl e
                  | Inr k \<Rightarrow> readDictionary buffer maxStr n (dict @ [k]) o2)))"

text \<open>
  \<^verbatim>\<open>decodeValue\<close> with its two loops. \<open>decodeArray\<close> and \<open>decodeObject\<close> take the number of
  elements still to read and the array or object built so far.
\<close>

function decodeValue :: "decoder \<Rightarrow> nat \<Rightarrow> nat \<Rightarrow> error + (KodaValue \<times> nat)"
  and decodeArray :: "decoder \<Rightarrow> nat \<Rightarrow> nat \<Rightarrow> KodaValue list \<Rightarrow> nat \<Rightarrow> error + (KodaValue list \<times> nat)"
  and decodeObject :: "decoder \<Rightarrow> nat \<Rightarrow> nat \<Rightarrow> object \<Rightarrow> nat \<Rightarrow> error + (object \<times> nat)"
where
  "decodeValue d depth offset =
     (if depth > dec_maxDepth d then fail Maximum_nesting_depth_exceeded offset
      else
        (case ensure (dec_buffer d) offset 1 of
           Inl e \<Rightarrow> Inl e
         | Inr _ \<Rightarrow>
        (case readU8 (dec_buffer d) offset of
           Inl e \<Rightarrow> Inl e
         | Inr (tag, o1) \<Rightarrow>
             if tag = 0x01 then Inr (VNull, o1)
             else if tag = 0x02 then Inr (VBool False, o1)
             else if tag = 0x03 then Inr (VBool True, o1)
             else if tag = 0x04 then
               (case readI64 (dec_buffer d) o1 of
                  Inl e \<Rightarrow> Inl e
                | Inr (big, o2) \<Rightarrow> Inr (VNum (NumberOfBigInt big), o2))
             else if tag = 0x05 then
               (case readF64 (dec_buffer d) o1 of
                  Inl e \<Rightarrow> Inl e
                | Inr (x, o2) \<Rightarrow> Inr (VNum x, o2))
             else if tag = 0x06 then
               (case readU32 (dec_buffer d) o1 of
                  Inl e \<Rightarrow> Inl e
                | Inr (len, o2) \<Rightarrow>
                    if len > dec_maxStr d then fail String_too_long o2
                    else
                      (case readBytes (dec_buffer d) o2 len of
                         Inl e \<Rightarrow> Inl e
                       | Inr (bytes, o3) \<Rightarrow>
                           (case decodeUtf8 bytes of
                              Inl e \<Rightarrow> Inl e
                            | Inr s \<Rightarrow> Inr (VStr s, o3))))
             else if tag = 0x07 then fail Binary_type_not_supported o1
             else if tag = 0x10 then
               (case readU32 (dec_buffer d) o1 of
                  Inl e \<Rightarrow> Inl e
                | Inr (count, o2) \<Rightarrow>
                    (case decodeArray d depth count [] o2 of
                       Inl e \<Rightarrow> Inl e
                     | Inr (arr, o3) \<Rightarrow> Inr (VArr arr, o3)))
             else if tag = 0x11 then
               (case readU32 (dec_buffer d) o1 of
                  Inl e \<Rightarrow> Inl e
                | Inr (count, o2) \<Rightarrow>
                    (case decodeObject d depth count (ObjectPrototype, []) o2 of
                       Inl e \<Rightarrow> Inl e
                     | Inr (obj, o3) \<Rightarrow> Inr (VObj (fst obj) (snd obj), o3)))
             else fail (Unknown_type_tag (unat tag)) o1)))"
| "decodeArray d depth 0 arr offset = Inr (arr, offset)"
| "decodeArray d depth (Suc n) arr offset =
     (case decodeValue d (depth + 1) offset of
        Inl e \<Rightarrow> Inl e
      | Inr (v, o1) \<Rightarrow> decodeArray d depth n (arr @ [v]) o1)"
| "decodeObject d depth 0 obj offset = Inr (obj, offset)"
| "decodeObject d depth (Suc n) obj offset =
     (case readU32 (dec_buffer d) offset of
        Inl e \<Rightarrow> Inl e
      | Inr (keyIdx, o1) \<Rightarrow>
          if keyIdx \<ge> length (dec_dictionary d) then fail Invalid_key_index o1
          else
            (case decodeValue d (depth + 1) o1 of
               Inl e \<Rightarrow> Inl e
             | Inr (v, o2) \<Rightarrow>
                 decodeObject d depth n (setProp obj (dec_dictionary d ! keyIdx) v) o2))"
  by pat_completeness auto

termination
  by (relation "inv_image (less_than <*lex*> less_than)
        (\<lambda>x. case x of
           Inl (d, depth, offset) \<Rightarrow> (2 * (Suc (dec_maxDepth d) - depth), 0)
         | Inr (Inl (d, depth, n, arr, offset)) \<Rightarrow> (2 * (Suc (dec_maxDepth d) - depth) - 1, n)
         | Inr (Inr (d, depth, n, obj, offset)) \<Rightarrow> (2 * (Suc (dec_maxDepth d) - depth) - 1, n))")
     auto

declare decodeValue.simps [simp del]

text \<open>
  \<^verbatim>\<open>decode(buffer, options)\<close> with the three options given. \<open>readHeader\<close> is the first
  part of its body: the magic number, the version and the dictionary.
\<close>

definition readHeader :: "byte list \<Rightarrow> nat \<Rightarrow> nat \<Rightarrow> error + (jsstring list \<times> nat)" where
  "readHeader buffer maxDict maxStr =
     (case ensure buffer 0 5 of
        Inl e \<Rightarrow> Inl e
      | Inr _ \<Rightarrow>
          if take 4 buffer \<noteq> MAGIC then fail Invalid_magic_number 0
          else
            (case readU8 buffer 4 of
               Inl e \<Rightarrow> Inl e
             | Inr (version, o1) \<Rightarrow>
                 if version \<noteq> VERSION then fail (Unsupported_version (unat version)) o1
                 else
                   (case readU32 buffer o1 of
                      Inl e \<Rightarrow> Inl e
                    | Inr (dictLen, o2) \<Rightarrow>
                        if dictLen > maxDict then fail Dictionary_too_large o2
                        else readDictionary buffer maxStr dictLen [] o2)))"

definition decode :: "byte list \<Rightarrow> nat \<Rightarrow> nat \<Rightarrow> nat \<Rightarrow> error + KodaValue" where
  "decode buffer maxDepth maxDict maxStr =
     (case readHeader buffer maxDict maxStr of
        Inl e \<Rightarrow> Inl e
      | Inr (dictionary, o3) \<Rightarrow>
          (case decodeValue
                  \<lparr>dec_buffer = buffer, dec_maxDepth = maxDepth,
                   dec_maxStr = maxStr, dec_dictionary = dictionary\<rparr> 0 o3 of
             Inl e \<Rightarrow> Inl e
           | Inr (v, o4) \<Rightarrow>
               if o4 \<noteq> length buffer
               then fail Trailing_bytes_after_root_value o4
               else Inr v))"

section \<open>Binary encoder (encoder.ts)\<close>

text \<open>
  \<^verbatim>\<open>collectKeys(value, set)\<close>. The \<^verbatim>\<open>Set\<close> is the list of its members in
  insertion order; \<open>setAdd\<close> is \<^verbatim>\<open>set.add(k)\<close>. The two loops of the function are
  \<open>collectKeysArray\<close> and \<open>collectKeysObject\<close>.
\<close>

definition setAdd :: "jsstring list \<Rightarrow> jsstring \<Rightarrow> jsstring list" where
  "setAdd s k = (if k \<in> set s then s else s @ [k])"

fun collectKeys :: "KodaValue \<Rightarrow> jsstring list \<Rightarrow> jsstring list"
  and collectKeysArray :: "KodaValue list \<Rightarrow> jsstring list \<Rightarrow> jsstring list"
  and collectKeysObject :: "(jsstring \<times> KodaValue) list \<Rightarrow> jsstring list \<Rightarrow> jsstring list"
where
  "collectKeys (VArr xs) s = collectKeysArray xs s"
| "collectKeys (VObj p kvs) s = collectKeysObject kvs s"
| "collectKeys VNull s = s"
| "collectKeys (VBool b) s = s"
| "collectKeys (VNum n) s = s"
| "collectKeys (VStr t) s = s"
| "collectKeysArray [] s = s"
| "collectKeysArray (v # xs) s = collectKeysArray xs (collectKeys v s)"
| "collectKeysObject [] s = s"
| "collectKeysObject ((k, v) # kvs) s = collectKeysObject kvs (collectKeys v (setAdd s k))"

text \<open>
  The comparator handed to \<^verbatim>\<open>sort\<close>: the first differing byte of the two UTF-8
  encodings decides, then the lengths.
\<close>

fun compareBytes :: "byte list \<Rightarrow> byte list \<Rightarrow> int" where
  "compareBytes (a # as) (b # bs) =
     (if a \<noteq> b then int (unat a) - int (unat b) else compareBytes as bs)"
| "compareBytes as bs = int (length as) - int (length bs)"

definition compareKeys :: "jsstring \<Rightarrow> jsstring \<Rightarrow> int" where
  "compareKeys a b = compareBytes (encodeUtf8 a) (encodeUtf8 b)"

text \<open>
  \<^verbatim>\<open>Array.prototype.sort\<close> is stable. With this comparator it returns the keys in
  ascending order, keys that compare equal in the order they had; insertion from the right
  computes the same list.
\<close>

fun insertKey :: "jsstring \<Rightarrow> jsstring list \<Rightarrow> jsstring list" where
  "insertKey x [] = [x]"
| "insertKey x (y # ys) = (if compareKeys x y \<le> 0 then x # y # ys else y # insertKey x ys)"

definition sortKeys :: "jsstring list \<Rightarrow> jsstring list" where
  "sortKeys xs = foldr insertKey xs []"

text \<open>
  \<^verbatim>\<open>dictionary.forEach((k, i) => keyToIndex.set(k, i))\<close>: the map that sends each key
  to the index it was last set to.
\<close>

definition keyToIndex :: "jsstring list \<Rightarrow> jsstring \<Rightarrow> nat option" where
  "keyToIndex dictionary = map_of (rev (zip dictionary [0..<length dictionary]))"

lemma size_map_of:
  "map_of kvs k = Some v \<Longrightarrow> size v < Suc (size_list (size_prod (\<lambda>x. 0) size) kvs)"
  by (induction kvs) (auto split: if_splits)

text \<open>
  \<^verbatim>\<open>encodeValue(v, depth)\<close>. The growing buffer \<^verbatim>\<open>buf.subarray(0, off)\<close> is the list
  \<open>buf\<close> of the bytes written so far, so \<^verbatim>\<open>off\<close> is its length. \<open>encodeArray\<close> is the
  loop over the items of an array, \<open>encodeObject\<close> the loop over \<^verbatim>\<open>sortedKeys\<close>; a key
  of \<^verbatim>\<open>Object.keys(obj)\<close> always has a value, the \<open>None\<close> branch of the lookup stands
  for a host error that cannot occur.
\<close>

function encodeValue :: "(jsstring \<Rightarrow> nat option) \<Rightarrow> nat \<Rightarrow> KodaValue \<Rightarrow> nat \<Rightarrow> byte list \<Rightarrow> error + byte list"
  and encodeArray :: "(jsstring \<Rightarrow> nat option) \<Rightarrow> nat \<Rightarrow> KodaValue list \<Rightarrow> nat \<Rightarrow> byte list \<Rightarrow> error + byte list"
  and encodeObject ::
    "(jsstring \<Rightarrow> nat option) \<Rightarrow> nat \<Rightarrow> (jsstring \<times> KodaValue) list \<Rightarrow> jsstring list \<Rightarrow> nat \<Rightarrow> byte list
       \<Rightarrow> error + byte list"
where
  "encodeValue k2i maxDepth v depth buf =
     (if depth > maxDepth then Inl (KodaEncodeError Maximum_nesting_depth_exceeded (length buf))
      else
        (case v of
           VNull \<Rightarrow> Inr (buf @ [0x01])
         | VBool b \<Rightarrow> (if b then Inr (buf @ [0x03]) else Inr (buf @ [0x02]))
         | VNum n \<Rightarrow>
             (case safeInteger n of
                Some big \<Rightarrow> Inr (buf @ [0x04] @ i64be big)
              | None \<Rightarrow> Inr (buf @ [0x05] @ f64be n))
         | VStr s \<Rightarrow> Inr (buf @ [0x06] @ u32be (length (encodeUtf8 s)) @ encodeUtf8 s)
         | VArr xs \<Rightarrow> encodeArray k2i maxDepth xs depth (buf @ [0x10] @ u32be (length xs))
         | VObj p kvs \<Rightarrow>
             encodeObject k2i maxDepth kvs (sortKeys (map fst kvs)) depth
               (buf @ [0x11] @ u32be (length (sortKeys (map fst kvs))))))"
| "encodeArray k2i maxDepth [] depth buf = Inr buf"
| "encodeArray k2i maxDepth (item # xs) depth buf =
     (case encodeValue k2i maxDepth item (depth + 1) buf of
        Inl e \<Rightarrow> Inl e
      | Inr buf' \<Rightarrow> encodeArray k2i maxDepth xs depth buf')"
| "encodeObject k2i maxDepth kvs [] depth buf = Inr buf"
| "encodeObject k2i maxDepth kvs (key # keys) depth buf =
     (case k2i key of
        None \<Rightarrow> Inl (KodaEncodeError Key_not_in_dictionary (length buf))
      | Some idx \<Rightarrow>
          (case map_of kvs key of
             None \<Rightarrow> Inl HostTypeError
           | Some v \<Rightarrow>
               (case encodeValue k2i maxDepth v (depth + 1) (buf @ u32be idx) of
                  Inl e \<Rightarrow> Inl e
                | Inr buf' \<Rightarrow> encodeObject k2i maxDepth kvs keys depth buf')))"
  by pat_completeness auto

termination
  by (relation "inv_image (less_than <*lex*> less_than)
        (\<lambda>x. case x of
           Inl (k2i, m, v, depth, buf) \<Rightarrow> (2 * size v + 1, 0)
         | Inr (Inl (k2i, m, xs, depth, buf)) \<Rightarrow> (2 * size (VArr xs), 0)
         | Inr (Inr (k2i, m, kvs, keys, depth, buf)) \<Rightarrow> (2 * size (VObj ObjectPrototype kvs), length keys))")
     (auto dest: size_map_of)

declare encodeValue.simps [simp del]

text \<open>\<^verbatim>\<open>encode(value, options)\<close> with the option \<^verbatim>\<open>maxDepth\<close> given.\<close>

definition writeDictionary :: "jsstring list \<Rightarrow> byte list" where
  "writeDictionary dictionary =
     concat (map (\<lambda>k. u32be (length (encodeUtf8 k)) @ encodeUtf8 k) dictionary)"

definition encode :: "KodaValue \<Rightarrow> nat \<Rightarrow> error + byte list" where
  "encode v maxDepth =
     (let dictionary = sortKeys (collectKeys v [])
      in encodeValue (keyToIndex dictionary) maxDepth v 0
           (MAGIC @ [VERSION] @ u32be (length dictionary) @ writeDictionary dictionary))"

section \<open>Structural equality and depth of values\<close>

text \<open>
  A value of the program: every object has pairwise distinct keys. Two values are
  structurally equal when they agree up to the order of object keys; numbers are compared
  by their bit patterns.
\<close>

fun wfValue :: "KodaValue \<Rightarrow> bool"
  and wfArray :: "KodaValue list \<Rightarrow> bool"
  and wfObject :: "(jsstring \<times> KodaValue) list \<Rightarrow> bool"
where
  "wfValue (VArr xs) = wfArray xs"
| "wfValue (VObj p kvs) = (distinct (map fst kvs) \<and> wfObject kvs)"
| "wfValue VNull = True"
| "wfValue (VBool b) = True"
| "wfValue (VNum n) = True"
| "wfValue (VStr t) = True"
| "wfArray [] = True"
| "wfArray (v # xs) = (wfValue v \<and> wfArray xs)"
| "wfObject [] = True"
| "wfObject ((k, v) # kvs) = (wfValue v \<and> wfObject kvs)"

fun structEq :: "KodaValue \<Rightarrow> KodaValue \<Rightarrow> bool"
  and structEqArray :: "KodaValue list \<Rightarrow> KodaValue list \<Rightarrow> bool"
  and structEqObject :: "(jsstring \<times> KodaValue) list \<Rightarrow> (jsstring \<times> KodaValue) list \<Rightarrow> bool"
where
  "structEq (VArr xs) w = (case w of VArr ys \<Rightarrow> structEqArray xs ys | _ \<Rightarrow> False)"
| "structEq (VObj p kvs) w =
     (case w of VObj q kws \<Rightarrow> length kvs = length kws \<and> structEqObject kvs kws | _ \<Rightarrow> False)"
| "structEq VNull w = (w = VNull)"
| "structEq (VBool b) w = (w = VBool b)"
| "structEq (VNum n) w = (w = VNum n)"
| "structEq (VStr t) w = (w = VStr t)"
| "structEqArray [] ys = (ys = [])"
| "structEqArray (v # xs) ys = (case ys of [] \<Rightarrow> False | w # ws \<Rightarrow> structEq v w \<and> structEqArray xs ws)"
| "structEqObject [] kws = True"
| "structEqObject ((k, v) # kvs) kws =
     ((case map_of kws k of None \<Rightarrow> False | Some w \<Rightarrow> structEq v w) \<and> structEqObject kvs kws)"

text \<open>
  A string of the data model is Unicode text: its code units contain no surrogate outside
  a surrogate pair (\<^verbatim>\<open>String.prototype.isWellFormed\<close>).
\<close>

fun wellFormed :: "jsstring \<Rightarrow> bool" where
  "wellFormed [] = True"
| "wellFormed [c] = (\<not> isHigh c \<and> \<not> isLow c)"
| "wellFormed (c # d # r) =
     (if isHigh c then isLow d \<and> wellFormed r else \<not> isLow c \<and> wellFormed (d # r))"

text \<open>
  The depth of a value: the root is at depth 0, and what stands inside an array or an
  object is one level deeper than the array or object itself. \<open>vdepth v\<close> is the depth of
  the deepest value inside \<open>v\<close>.
\<close>

fun vdepth :: "KodaValue \<Rightarrow> nat"
  and vdepthArray :: "KodaValue list \<Rightarrow> nat"
  and vdepthObject :: "(jsstring \<times> KodaValue) list \<Rightarrow> nat"
where
  "vdepth (VArr xs) = vdepthArray xs"
| "vdepth (VObj p kvs) = vdepthObject kvs"
| "vdepth VNull = 0"
| "vdepth (VBool b) = 0"
| "vdepth (VNum n) = 0"
| "vdepth (VStr t) = 0"
| "vdepthArray [] = 0"
| "vdepthArray (v # xs) = max (Suc (vdepth v)) (vdepthArray xs)"
| "vdepthObject [] = 0"
| "vdepthObject ((k, v) # kvs) = max (Suc (vdepth v)) (vdepthObject kvs)"

chapter \<open>Properties\<close>

section \<open>Decoder: reading from a longer buffer\<close>

text \<open>
  A read that succeeds looks only at bytes below the offset it returns, so it gives the
  same result on every extension of the buffer.
\<close>

lemma ensure_Inr_iff: "ensure buffer offset n = Inr u \<longleftrightarrow> offset + n \<le> length buffer"
  by (auto simp: ensure_def fail_def)

lemma ensure_append: "ensure buffer offset n = Inr u \<Longrightarrow> ensure (buffer @ ys) offset n = Inr u"
  by (auto simp: ensure_def fail_def)

lemma readU8_append: "readU8 buffer offset = Inr r \<Longrightarrow> readU8 (buffer @ ys) offset = Inr r"
  by (auto simp: readU8_def ensure_def fail_def nth_append split: if_splits)

lemmas read_defs = readU32_def readI64_def readF64_def readBytes_def ensure_def fail_def

lemma readDictionary_append:
  "readDictionary buffer maxStr n dict offset = Inr r \<Longrightarrow>
   readDictionary (buffer @ ys) maxStr n dict offset = Inr r"
proof (induction n arbitrary: dict offset)
  case 0
  then show ?case by simp
next
  case (Suc n)
  then show ?case
    by (auto simp: read_defs split: sum.splits prod.splits if_splits)
qed

lemma readHeader_append:
  "readHeader buffer maxDict maxStr = Inr r \<Longrightarrow> readHeader (buffer @ ys) maxDict maxStr = Inr r"
  unfolding readHeader_def
  by (auto simp: read_defs readU8_def nth_append readDictionary_append
           split: sum.splits prod.splits if_splits)

lemma decodeValue_tag:
  assumes "\<not> depth > dec_maxDepth d" and "readU8 (dec_buffer d) offset = Inr (tag, o1)"
  shows "decodeValue d depth offset =
    (if tag = 0x01 then Inr (VNull, o1)
     else if tag = 0x02 then Inr (VBool False, o1)
     else if tag = 0x03 then Inr (VBool True, o1)
     else if tag = 0x04 then
       (case readI64 (dec_buffer d) o1 of
          Inl e \<Rightarrow> Inl e
        | Inr (big, o2) \<Rightarrow> Inr (VNum (NumberOfBigInt big), o2))
     else if tag = 0x05 then
       (case readF64 (dec_buffer d) o1 of
          Inl e \<Rightarrow> Inl e
        | Inr (x, o2) \<Rightarrow> Inr (VNum x, o2))
     else if tag = 0x06 then
       (case readU32 (dec_buffer d) o1 of
          Inl e \<Rightarrow> Inl e
        | Inr (len, o2) \<Rightarrow>
            if len > dec_maxStr d then fail String_too_long o2
            else
              (case readBytes (dec_buffer d) o2 len of
                 Inl e \<Rightarrow> Inl e
               | Inr (bytes, o3) \<Rightarrow>
                   (case decodeUtf8 bytes of
                      Inl e \<Rightarrow> Inl e
                    | Inr s \<Rightarrow> Inr (VStr s, o3))))
     else if tag = 0x07 then fail Binary_type_not_supported o1
     else if tag = 0x10 then
       (case readU32 (dec_buffer d) o1 of
          Inl e \<Rightarrow> Inl e
        | Inr (count, o2) \<Rightarrow>
            (case decodeArray d depth count [] o2 of
               Inl e \<Rightarrow> Inl e
             | Inr (arr, o3) \<Rightarrow> Inr (VArr arr, o3)))
     else if tag = 0x11 then
       (case readU32 (dec_buffer d) o1 of
          Inl e \<Rightarrow> Inl e
        | Inr (count, o2) \<Rightarrow>
            (case decodeObject d depth count (ObjectPrototype, []) o2 of
               Inl e \<Rightarrow> Inl e
             | Inr (obj, o3) \<Rightarrow> Inr (VObj (fst obj) (snd obj), o3)))
     else fail (Unknown_type_tag (unat tag)) o1)"
proof -
  from assms(2) have "ensure (dec_buffer d) offset 1 = Inr ()"
    by (auto simp: readU8_def split: sum.splits)
  with assms show ?thesis
    by (subst decodeValue.simps) simp
qed

lemma decodeValue_Inr_tag:
  assumes "decodeValue d depth offset = Inr r"
  obtains tag o1 where "\<not> depth > dec_maxDepth d" and "readU8 (dec_buffer d) offset = Inr (tag, o1)"
  using assms
  by (subst (asm) decodeValue.simps) (auto simp: fail_def split: if_splits sum.splits)

lemma decodeValue_append:
  "decodeValue d depth offset = Inr r \<Longrightarrow>
     decodeValue (d\<lparr>dec_buffer := dec_buffer d @ ys\<rparr>) depth offset = Inr r"
  "decodeArray d depth n arr offset = Inr ra \<Longrightarrow>
     decodeArray (d\<lparr>dec_buffer := dec_buffer d @ ys\<rparr>) depth n arr offset = Inr ra"
  "decodeObject d depth n obj offset = Inr ro \<Longrightarrow>
     decodeObject (d\<lparr>dec_buffer := dec_buffer d @ ys\<rparr>) depth n obj offset = Inr ro"
proof (induction d depth offset and d depth n arr offset and d depth n obj offset
       arbitrary: r and ra and ro rule: decodeValue_decodeArray_decodeObject.induct)
  case (1 d depth offset)
  let ?d' = "d\<lparr>dec_buffer := dec_buffer d @ ys\<rparr>"
  from "1.prems" obtain tag o1 where dle: "\<not> depth > dec_maxDepth d"
    and rd: "readU8 (dec_buffer d) offset = Inr (tag, o1)"
    by (rule decodeValue_Inr_tag)
  have en: "ensure (dec_buffer d) offset 1 = Inr ()"
    using rd by (auto simp: readU8_def split: sum.splits)
  have dle': "\<not> depth > dec_maxDepth ?d'" using dle by simp
  have rd': "readU8 (dec_buffer ?d') offset = Inr (tag, o1)"
    using readU8_append [OF rd] by simp
  note body = decodeValue_tag [OF dle rd] and body' = decodeValue_tag [OF dle' rd']
  consider "tag = 0x10" | "tag = 0x11" | "tag = 0x01" | "tag = 0x02" | "tag = 0x03" | "tag = 0x04"
    | "tag = 0x05" | "tag = 0x06" | "tag = 0x07"
    | "tag \<noteq> 0x01 \<and> tag \<noteq> 0x02 \<and> tag \<noteq> 0x03 \<and> tag \<noteq> 0x04 \<and> tag \<noteq> 0x05 \<and> tag \<noteq> 0x06
        \<and> tag \<noteq> 0x07 \<and> tag \<noteq> 0x10 \<and> tag \<noteq> 0x11"
    by blast
  then show ?case
  proof cases
    case 1
    from "1.prems" obtain count o2 arr o3 where
      c: "readU32 (dec_buffer d) o1 = Inr (count, o2)"
      and a: "decodeArray d depth count [] o2 = Inr (arr, o3)" and r: "r = (VArr arr, o3)"
      unfolding body by (auto simp: 1 split: sum.splits)
    have "decodeArray ?d' depth count [] o2 = Inr (arr, o3)"
      using "1.IH"(1) [OF dle en rd refl _ _ _ _ _ _ _ _ c refl a] 1 by simp
    then show ?thesis
      unfolding body' using c by (auto simp: 1 r read_defs split: if_splits)
  next
    case 2
    from "1.prems" obtain count o2 obj o3 where
      c: "readU32 (dec_buffer d) o1 = Inr (count, o2)"
      and a: "decodeObject d depth count (ObjectPrototype, []) o2 = Inr (obj, o3)"
      and r: "r = (VObj (fst obj) (snd obj), o3)"
      unfolding body by (auto simp: 2 split: sum.splits)
    have "decodeObject ?d' depth count (ObjectPrototype, []) o2 = Inr (obj, o3)"
      using "1.IH"(2) [OF dle en rd refl _ _ _ _ _ _ _ _ _ c refl a] 2 by simp
    then show ?thesis
      unfolding body' using c by (auto simp: 2 r read_defs split: if_splits)
  qed (use "1.prems" in \<open>auto simp: body body' read_defs split: sum.splits prod.splits if_splits\<close>)
next
  case (2 d depth arr offset)
  then show ?case by simp
next
  case (3 d depth n arr offset)
  then show ?case by (auto split: sum.splits prod.splits)
next
  case (4 d depth obj offset)
  then show ?case by simp
next
  case (5 d depth n obj offset)
  then show ?case by (auto simp: read_defs split: sum.splits prod.splits if_splits)
qed

section \<open>Evaluating the decoder on given bytes\<close>

lemma readDictionary_numeral:
  "readDictionary buffer maxStr (numeral k) dict offset =
   readDictionary buffer maxStr (Suc (pred_numeral k)) dict offset"
  by (simp only: numeral_eq_Suc)

lemma decodeArray_numeral:
  "decodeArray d depth (numeral k) arr offset = decodeArray d depth (Suc (pred_numeral k)) arr offset"
  by (simp only: numeral_eq_Suc)

lemma decodeObject_numeral:
  "decodeObject d depth (numeral k) obj offset = decodeObject d depth (Suc (pred_numeral k)) obj offset"
  by (simp only: numeral_eq_Suc)

lemmas decode_eval = readDictionary_numeral decodeArray_numeral decodeObject_numeral decode_def readHeader_def ensure_def MAGIC_def VERSION_def readU8_def readU32_def
  readI64_def readF64_def be_nat_def decodeValue.simps readBytes_def decodeUtf8_def textDecode_def fail_def
  setProp_def protoKey_def js_def utf16OfCodePoint_def isCont_def insertOwn_def arrayIndex_def isDigit_def
  decimalValue_def

section \<open>Trailing bytes (claim C6)\<close>

text \<open>
  Claim C6. For every byte sequence: when the header and the root value are decoded and at
  least one byte of the buffer is still unread, \<open>decode\<close> fails with
  \<open>Trailing_bytes_after_root_value\<close> at the offset reached and returns no value. In
  particular, when \<open>decode\<close> accepts a buffer, it rejects the buffer followed by any
  further bytes \<open>b # extra\<close>, with that error at the offset where the accepted buffer ended.
\<close>

theorem decode_trailing_bytes:
  "(readHeader buffer maxDict maxStr = Inr (dictionary, o3) \<longrightarrow>
      decodeValue \<lparr>dec_buffer = buffer, dec_maxDepth = maxDepth, dec_maxStr = maxStr,
                   dec_dictionary = dictionary\<rparr> 0 o3 = Inr (v, o4) \<longrightarrow>
      o4 < length buffer \<longrightarrow>
      decode buffer maxDepth maxDict maxStr = Inl (KodaDecodeError Trailing_bytes_after_root_value o4))
   \<and> (decode buffer maxDepth maxDict maxStr = Inr w \<longrightarrow>
      decode (buffer @ b # extra) maxDepth maxDict maxStr =
        Inl (KodaDecodeError Trailing_bytes_after_root_value (length buffer)))"
proof (intro conjI impI)
  assume "readHeader buffer maxDict maxStr = Inr (dictionary, o3)"
    and "decodeValue \<lparr>dec_buffer = buffer, dec_maxDepth = maxDepth, dec_maxStr = maxStr,
                   dec_dictionary = dictionary\<rparr> 0 o3 = Inr (v, o4)"
    and "o4 < length buffer"
  then show "decode buffer maxDepth maxDict maxStr = Inl (KodaDecodeError Trailing_bytes_after_root_value o4)"
    by (simp add: decode_def fail_def)
next
  assume ok: "decode buffer maxDepth maxDict maxStr = Inr w"
  let ?d = "\<lambda>dict. \<lparr>dec_buffer = buffer, dec_maxDepth = maxDepth, dec_maxStr = maxStr, dec_dictionary = dict\<rparr>"
  from ok obtain dictionary o3 where h: "readHeader buffer maxDict maxStr = Inr (dictionary, o3)"
    by (auto simp: decode_def split: sum.splits)
  from ok h have v: "decodeValue (?d dictionary) 0 o3 = Inr (w, length buffer)"
    by (auto simp: decode_def fail_def split: sum.splits if_splits)
  have h': "readHeader (buffer @ b # extra) maxDict maxStr = Inr (dictionary, o3)"
    by (rule readHeader_append [OF h])
  have "decodeValue ((?d dictionary)\<lparr>dec_buffer := dec_buffer (?d dictionary) @ b # extra\<rparr>) 0 o3
          = Inr (w, length buffer)"
    by (rule decodeValue_append(1) [OF v])
  then have v': "decodeValue \<lparr>dec_buffer = buffer @ b # extra, dec_maxDepth = maxDepth,
       dec_maxStr = maxStr, dec_dictionary = dictionary\<rparr> 0 o3 = Inr (w, length buffer)"
    by simp
  show "decode (buffer @ b # extra) maxDepth maxDict maxStr =
        Inl (KodaDecodeError Trailing_bytes_after_root_value (length buffer))"
    by (simp add: decode_def h' v' fail_def)
qed

theorem decode_trailing_bytes_witness:
  "decode [0x4B, 0x4F, 0x44, 0x41, 0x01, 0, 0, 0, 0, 0x10, 0, 0, 0, 1, 0x03] 256 65536 1000000
     = Inr (VArr [VBool True])
   \<and> decode ([0x4B, 0x4F, 0x44, 0x41, 0x01, 0, 0, 0, 0, 0x10, 0, 0, 0, 1, 0x03] @ [0x00]) 256 65536 1000000
     = Inl (KodaDecodeError Trailing_bytes_after_root_value 15)
   \<and> readHeader [0x4B, 0x4F, 0x44, 0x41, 0x01, 0, 0, 0, 0, 0x01, 0x02] 65536 1000000 = Inr ([], 9)
   \<and> decodeValue \<lparr>dec_buffer = [0x4B, 0x4F, 0x44, 0x41, 0x01, 0, 0, 0, 0, 0x01, 0x02],
        dec_maxDepth = 256, dec_maxStr = 1000000, dec_dictionary = []\<rparr> 0 9 = Inr (VNull, 10)
   \<and> decode [0x4B, 0x4F, 0x44, 0x41, 0x01, 0, 0, 0, 0, 0x01, 0x02] 256 65536 1000000
     = Inl (KodaDecodeError Trailing_bytes_after_root_value 10)"
proof -
  let ?a = "[0x4B, 0x4F, 0x44, 0x41, 0x01, 0, 0, 0, 0, 0x10, 0, 0, 0, 1, 0x03] :: byte list"
  let ?b = "[0x4B, 0x4F, 0x44, 0x41, 0x01, 0, 0, 0, 0, 0x01, 0x02] :: byte list"
  have a: "decode ?a 256 65536 1000000 = Inr (VArr [VBool True])"
    by (simp add: decode_eval)
  have h: "readHeader ?b 65536 1000000 = Inr ([], 9)"
    by (simp add: decode_eval)
  have v: "decodeValue \<lparr>dec_buffer = ?b, dec_maxDepth = 256, dec_maxStr = 1000000, dec_dictionary = []\<rparr> 0 9
      = Inr (VNull, 10)"
    by (simp add: decode_eval)
  from decode_trailing_bytes [of ?a 65536 1000000 "[]" 0 256 VNull 0 "VArr [VBool True]" 0 "[]"] a
       decode_trailing_bytes [of ?b 65536 1000000 "[]" 9 256 VNull 10 VNull 0 "[]"] h v
  show ?thesis by simp
qed

section \<open>Ill-formed UTF-8 (claim C8)\<close>

text \<open>
  Claim C8 says that every decode failure is a decode error carrying the read offset. The
  decoder calls the host's \<^verbatim>\<open>TextDecoder\<close> in fatal mode and does not catch what it
  throws: on an ill-formed string payload, and on an ill-formed dictionary key, the input is
  rejected with the host's \<^verbatim>\<open>TypeError\<close>, which carries no offset.
\<close>

theorem decode_ill_formed_utf8_type_error:
  "decode [0x4B, 0x4F, 0x44, 0x41, 0x01, 0, 0, 0, 0, 0x06, 0, 0, 0, 1, 0xFF] 256 65536 1000000
     = Inl HostTypeError
   \<and> decode [0x4B, 0x4F, 0x44, 0x41, 0x01, 0, 0, 0, 1, 0, 0, 0, 1, 0xFF, 0x01] 256 65536 1000000
     = Inl HostTypeError"
  by (simp add: decode_eval)

section \<open>Repeated keys in binary objects (claim C3)\<close>

text \<open>
  Claim C3 says that a repeated key index inside an object makes \<open>decode\<close> fail. The
  decoder has no such check: the object below lists key index 0 twice, first with
  \<^verbatim>\<open>null\<close> and then with \<^verbatim>\<open>true\<close>, and decodes to an object in which the later entry
  has replaced the earlier one.
\<close>

theorem decode_repeated_key_overwrites:
  "decode [0x4B, 0x4F, 0x44, 0x41, 0x01, 0, 0, 0, 1, 0, 0, 0, 1, 0x61,
           0x11, 0, 0, 0, 2, 0, 0, 0, 0, 0x01, 0, 0, 0, 0, 0x03] 256 65536 1000000
     = Inr (VObj ObjectPrototype [(js ''a'', VBool True)])"
  by (simp add: decode_eval)

section \<open>Encoder: the bytes written and the depth check\<close>

lemma size_in_list: "x \<in> set xs \<Longrightarrow> size (x :: KodaValue) < Suc (size_list size xs)"
  by (induction xs) auto

text \<open>The bytes that \<open>encodeValue\<close> appends for a value when no depth error occurs.\<close>

function encBytes :: "(jsstring \<Rightarrow> nat option) \<Rightarrow> KodaValue \<Rightarrow> byte list"
  and encBytesObject :: "(jsstring \<Rightarrow> nat option) \<Rightarrow> (jsstring \<times> KodaValue) list \<Rightarrow> jsstring list \<Rightarrow> byte list"
where
  "encBytes k2i VNull = [0x01]"
| "encBytes k2i (VBool b) = (if b then [0x03] else [0x02])"
| "encBytes k2i (VNum n) =
     (case safeInteger n of Some big \<Rightarrow> [0x04] @ i64be big | None \<Rightarrow> [0x05] @ f64be n)"
| "encBytes k2i (VStr s) = [0x06] @ u32be (length (encodeUtf8 s)) @ encodeUtf8 s"
| "encBytes k2i (VArr xs) = [0x10] @ u32be (length xs) @ concat (map (encBytes k2i) xs)"
| "encBytes k2i (VObj p kvs) =
     [0x11] @ u32be (length (sortKeys (map fst kvs))) @ encBytesObject k2i kvs (sortKeys (map fst kvs))"
| "encBytesObject k2i kvs [] = []"
| "encBytesObject k2i kvs (key # keys) =
     (case map_of kvs key of
        None \<Rightarrow> []
      | Some v \<Rightarrow> u32be (the (k2i key)) @ encBytes k2i v) @ encBytesObject k2i kvs keys"
  by pat_completeness auto

termination
  by (relation "inv_image (less_than <*lex*> less_than)
        (\<lambda>x. case x of
           Inl (k2i, v) \<Rightarrow> (2 * size v + 1, 0)
         | Inr (k2i, kvs, keys) \<Rightarrow> (2 * size (VObj ObjectPrototype kvs), length keys))")
     (auto dest: size_map_of size_in_list)


lemma sortKeys_simps [simp]: "sortKeys [] = []" "sortKeys (x # xs) = insertKey x (sortKeys xs)"
  by (simp_all add: sortKeys_def)

lemma set_insertKey [simp]: "set (insertKey x ys) = insert x (set ys)"
  by (induction ys) auto

lemma set_sortKeys [simp]: "set (sortKeys xs) = set xs"
  by (induction xs) auto

lemma length_insertKey [simp]: "length (insertKey x ys) = Suc (length ys)"
  by (induction ys) auto

lemma length_sortKeys [simp]: "length (sortKeys xs) = length xs"
  by (induction xs) auto

lemma distinct_insertKey [simp]: "distinct (insertKey x ys) = (x \<notin> set ys \<and> distinct ys)"
  by (induction ys) auto

lemma distinct_sortKeys [simp]: "distinct (sortKeys xs) = distinct xs"
  by (induction xs) auto

text \<open>All keys of a value.\<close>

fun keysOf :: "KodaValue \<Rightarrow> jsstring set"
  and keysOfArray :: "KodaValue list \<Rightarrow> jsstring set"
  and keysOfObject :: "(jsstring \<times> KodaValue) list \<Rightarrow> jsstring set"
where
  "keysOf (VArr xs) = keysOfArray xs"
| "keysOf (VObj p kvs) = keysOfObject kvs"
| "keysOf VNull = {}"
| "keysOf (VBool b) = {}"
| "keysOf (VNum n) = {}"
| "keysOf (VStr t) = {}"
| "keysOfArray [] = {}"
| "keysOfArray (v # xs) = keysOf v \<union> keysOfArray xs"
| "keysOfObject [] = {}"
| "keysOfObject ((k, v) # kvs) = insert k (keysOf v \<union> keysOfObject kvs)"

lemma set_collectKeys:
  "set (collectKeys v s) = set s \<union> keysOf v"
  "set (collectKeysArray xs s) = set s \<union> keysOfArray xs"
  "set (collectKeysObject kvs s) = set s \<union> keysOfObject kvs"
  by (induction v s and xs s and kvs s rule: collectKeys_collectKeysArray_collectKeysObject.induct)
     (auto simp: setAdd_def)

lemma distinct_collectKeys:
  "distinct s \<Longrightarrow> distinct (collectKeys v s)"
  "distinct s \<Longrightarrow> distinct (collectKeysArray xs s)"
  "distinct s \<Longrightarrow> distinct (collectKeysObject kvs s)"
  by (induction v s and xs s and kvs s rule: collectKeys_collectKeysArray_collectKeysObject.induct)
     (auto simp: setAdd_def)

lemma keysOfArray_iff: "k \<in> keysOfArray xs \<longleftrightarrow> (\<exists>x\<in>set xs. k \<in> keysOf x)"
  by (induction xs) auto

lemma keysOfObject_iff: "k \<in> keysOfObject kvs \<longleftrightarrow> k \<in> fst ` set kvs \<or> (\<exists>x\<in>snd ` set kvs. k \<in> keysOf x)"
  by (induction kvs) auto

lemma vdepthArray_le: "vdepthArray xs \<le> n \<longleftrightarrow> (\<forall>x\<in>set xs. Suc (vdepth x) \<le> n)"
  by (induction xs) auto

lemma vdepthObject_le: "vdepthObject kvs \<le> n \<longleftrightarrow> (\<forall>x\<in>snd ` set kvs. Suc (vdepth x) \<le> n)"
  by (induction kvs) auto

lemma wfArray_iff: "wfArray xs \<longleftrightarrow> (\<forall>x\<in>set xs. wfValue x)"
  by (induction xs) auto

lemma wfObject_iff: "wfObject kvs \<longleftrightarrow> (\<forall>x\<in>snd ` set kvs. wfValue x)"
  by (induction kvs) auto

lemma vdepthArray_bound:
  "depth \<le> m \<Longrightarrow> (depth + vdepthArray xs \<le> m) = (\<forall>x\<in>set xs. Suc (depth + vdepth x) \<le> m)"
  by (induction xs) auto

lemma vdepthObject_bound:
  "depth \<le> m \<Longrightarrow> (depth + vdepthObject kvs \<le> m) = (\<forall>x\<in>snd ` set kvs. Suc (depth + vdepth x) \<le> m)"
  by (induction kvs) auto

lemma map_of_values:
  assumes "distinct (map fst kvs)"
  shows "(\<forall>k\<in>set (map fst kvs). \<forall>v. map_of kvs k = Some v \<longrightarrow> P v) \<longleftrightarrow> (\<forall>v\<in>snd ` set kvs. P v)"
  using assms by (induction kvs) (force+)

lemma map_of_keys:
  "k \<in> set (map fst kvs) \<Longrightarrow> \<exists>v. map_of kvs k = Some v \<and> v \<in> snd ` set kvs"
  by (induction kvs) auto

lemma encodeValue_result:
  "keysOf v \<subseteq> dom k2i \<Longrightarrow> wfValue v \<Longrightarrow>
     (depth + vdepth v \<le> m \<longrightarrow> encodeValue k2i m v depth buf = Inr (buf @ encBytes k2i v))
     \<and> (m < depth + vdepth v \<longrightarrow>
          (\<exists>off. encodeValue k2i m v depth buf = Inl (KodaEncodeError Maximum_nesting_depth_exceeded off)))"
  "keysOfArray xs \<subseteq> dom k2i \<Longrightarrow> wfArray xs \<Longrightarrow>
     ((\<forall>x\<in>set xs. Suc (depth + vdepth x) \<le> m) \<longrightarrow>
        encodeArray k2i m xs depth buf = Inr (buf @ concat (map (encBytes k2i) xs)))
     \<and> ((\<exists>x\<in>set xs. m < Suc (depth + vdepth x)) \<longrightarrow>
          (\<exists>off. encodeArray k2i m xs depth buf = Inl (KodaEncodeError Maximum_nesting_depth_exceeded off)))"
  "(\<forall>k\<in>set keys. k \<in> dom k2i \<and> (\<exists>v. map_of kvs k = Some v \<and> keysOf v \<subseteq> dom k2i \<and> wfValue v)) \<Longrightarrow>
     ((\<forall>k\<in>set keys. \<forall>v. map_of kvs k = Some v \<longrightarrow> Suc (depth + vdepth v) \<le> m) \<longrightarrow>
        encodeObject k2i m kvs keys depth buf = Inr (buf @ encBytesObject k2i kvs keys))
     \<and> ((\<exists>k\<in>set keys. \<exists>v. map_of kvs k = Some v \<and> m < Suc (depth + vdepth v)) \<longrightarrow>
          (\<exists>off. encodeObject k2i m kvs keys depth buf = Inl (KodaEncodeError Maximum_nesting_depth_exceeded off)))"
proof (induction k2i m v depth buf and k2i m xs depth buf and k2i m kvs keys depth buf
       rule: encodeValue_encodeArray_encodeObject.induct)
  case (1 k2i m v depth buf)
  show ?case
  proof (cases "depth > m")
    case True
    then show ?thesis by (subst encodeValue.simps, subst encodeValue.simps) simp
  next
    case False
    then have le: "depth \<le> m" by simp
    show ?thesis
    proof (cases v)
      case (VArr xs)
      have a: "keysOfArray xs \<subseteq> dom k2i" "wfArray xs" using "1.prems" VArr by auto
      have eq: "encodeValue k2i m v depth buf = encodeArray k2i m xs depth (buf @ [0x10] @ u32be (length xs))"
        by (subst encodeValue.simps) (simp add: False VArr)
      show ?thesis
        unfolding eq using "1.IH"(1) [OF False VArr a] vdepthArray_bound [OF le, of xs]
        by (auto simp: VArr not_le)
    next
      case (VObj p kvs)
      let ?keys = "sortKeys (map fst kvs)"
      have d: "distinct (map fst kvs)" and w: "wfObject kvs" and ks: "keysOfObject kvs \<subseteq> dom k2i"
        using "1.prems" VObj by auto
      have pre: "\<forall>k\<in>set ?keys. k \<in> dom k2i \<and> (\<exists>v. map_of kvs k = Some v \<and> keysOf v \<subseteq> dom k2i \<and> wfValue v)"
      proof
        fix k assume "k \<in> set ?keys"
        then have k: "k \<in> set (map fst kvs)" by simp
        from map_of_keys [OF k] obtain v where v: "map_of kvs k = Some v" "v \<in> snd ` set kvs"
          by (elim exE conjE)
        have "k \<in> dom k2i" using ks k keysOfObject_iff [of k kvs] by auto
        moreover have "keysOf v \<subseteq> dom k2i" using ks v(2) keysOfObject_iff [of _ kvs] by blast
        moreover have "wfValue v" using w v(2) by (auto simp: wfObject_iff)
        ultimately show "k \<in> dom k2i \<and> (\<exists>v. map_of kvs k = Some v \<and> keysOf v \<subseteq> dom k2i \<and> wfValue v)"
          using v(1) by blast
      qed
      have eq: "encodeValue k2i m v depth buf =
          encodeObject k2i m kvs ?keys depth (buf @ [0x11] @ u32be (length ?keys))"
        by (subst encodeValue.simps) (simp add: False VObj)
      have b: "(depth + vdepthObject kvs \<le> m) =
          (\<forall>k\<in>set ?keys. \<forall>v. map_of kvs k = Some v \<longrightarrow> Suc (depth + vdepth v) \<le> m)"
        using vdepthObject_bound [OF le, of kvs] map_of_values [OF d, of "\<lambda>v. Suc (depth + vdepth v) \<le> m"]
        by simp
      show ?thesis
        unfolding eq using "1.IH"(2) [OF False VObj pre] b
        by (auto simp: VObj not_le)
    qed (use False in \<open>subst encodeValue.simps, auto split: option.splits\<close>)+
  qed
next
  case (2 k2i maxDepth depth buf)
  then show ?case by simp
next
  case (3 k2i m item xs depth buf)
  have a: "keysOf item \<subseteq> dom k2i" "wfValue item" "keysOfArray xs \<subseteq> dom k2i" "wfArray xs"
    using "3.prems" by auto
  note ih1 = "3.IH"(1) [OF a(1,2)]
  show ?case
  proof (cases "Suc (depth + vdepth item) \<le> m")
    case True
    then have e: "encodeValue k2i m item (depth + 1) buf = Inr (buf @ encBytes k2i item)"
      using ih1 by simp
    show ?thesis
      using "3.IH"(2) [OF e a(3,4)] True e by auto
  next
    case False
    then obtain off where
      "encodeValue k2i m item (Suc depth) buf = Inl (KodaEncodeError Maximum_nesting_depth_exceeded off)"
      using ih1 by auto
    then show ?thesis using False by auto
  qed
next
  case (4 k2i maxDepth kvs depth buf)
  then show ?case by simp
next
  case (5 k2i m kvs key keys depth buf)
  from "5.prems" obtain idx v where i: "k2i key = Some idx" and v: "map_of kvs key = Some v"
    and kv: "keysOf v \<subseteq> dom k2i" "wfValue v" by auto
  have rest: "\<forall>k\<in>set keys. k \<in> dom k2i \<and> (\<exists>v. map_of kvs k = Some v \<and> keysOf v \<subseteq> dom k2i \<and> wfValue v)"
    using "5.prems" by simp
  note ih1 = "5.IH"(1) [OF i v kv]
  show ?case
  proof (cases "Suc (depth + vdepth v) \<le> m")
    case True
    then have e: "encodeValue k2i m v (depth + 1) (buf @ u32be idx) = Inr ((buf @ u32be idx) @ encBytes k2i v)"
      using ih1 by simp
    show ?thesis
      using "5.IH"(2) [OF i v e rest] True e by (auto simp: i v)
  next
    case False
    then obtain off where
      "encodeValue k2i m v (Suc depth) (buf @ u32be idx) = Inl (KodaEncodeError Maximum_nesting_depth_exceeded off)"
      using ih1 by auto
    then show ?thesis using False by (auto simp: i v)
  qed
qed

lemma keyToIndex_Some_iff:
  assumes "distinct dictionary"
  shows "keyToIndex dictionary k = Some i \<longleftrightarrow> i < length dictionary \<and> dictionary ! i = k"
proof -
  have "map fst (rev (zip dictionary [0..<length dictionary])) = rev dictionary"
    by (simp only: rev_map [symmetric]) (simp add: map_fst_zip)
  then have "distinct (map fst (rev (zip dictionary [0..<length dictionary])))"
    using assms by simp
  then have "keyToIndex dictionary k = Some i \<longleftrightarrow> (k, i) \<in> set (zip dictionary [0..<length dictionary])"
    unfolding keyToIndex_def by (subst map_of_eq_Some_iff) simp_all
  also have "\<dots> \<longleftrightarrow> i < length dictionary \<and> dictionary ! i = k"
    by (auto simp: in_set_zip)
  finally show ?thesis .
qed

lemma dom_keyToIndex [simp]: "dom (keyToIndex dictionary) = set dictionary"
proof -
  have "map fst (zip dictionary [0..<length dictionary]) = dictionary"
    by (simp add: map_fst_zip)
  then have "fst ` set (zip dictionary [0..<length dictionary]) = set dictionary"
    by (simp only: set_map [symmetric])
  then show ?thesis by (simp add: keyToIndex_def dom_map_of_conv_image_fst)
qed

lemma encode_result:
  assumes "wfValue v"
  shows "(vdepth v \<le> maxDepth \<longrightarrow> (\<exists>bytes. encode v maxDepth = Inr bytes))
     \<and> (maxDepth < vdepth v \<longrightarrow>
          (\<exists>off. encode v maxDepth = Inl (KodaEncodeError Maximum_nesting_depth_exceeded off)))"
proof -
  have "keysOf v \<subseteq> dom (keyToIndex (sortKeys (collectKeys v [])))"
    by (simp add: set_collectKeys)
  from encodeValue_result(1) [OF this assms, of 0 maxDepth] show ?thesis
    by (auto simp: encode_def Let_def)
qed

section \<open>Canonical key order\<close>

text \<open>
  The comparator orders keys by their UTF-8 encodings, so sorting a set of keys has one
  result whenever no two of the keys have the same encoding.
\<close>

lemma compareBytes_le: "compareBytes as bs \<le> 0 \<longleftrightarrow> as \<le> bs"
proof (induction as arbitrary: bs)
  case Nil
  then show ?case by simp
next
  case (Cons a as)
  show ?case
    by (cases bs) (use Cons in \<open>auto simp: word_le_def word_less_def word_uint_eq_iff\<close>)
qed

lemma insertKey_insort: "insertKey x ys = insort_key encodeUtf8 x ys"
  by (induction ys) (auto simp: compareKeys_def compareBytes_le)

lemma sortKeys_sort_key: "sortKeys xs = sort_key encodeUtf8 xs"
  by (induction xs) (auto simp: insertKey_insort)

lemma sortKeys_unique:
  assumes "set xs = set ys" and "distinct xs" and "distinct ys" and "inj_on encodeUtf8 (set xs)"
  shows "sortKeys xs = sortKeys ys"
proof -
  let ?a = "sort_key encodeUtf8 xs" and ?b = "sort_key encodeUtf8 ys"
  have "map encodeUtf8 ?a = map encodeUtf8 ?b"
  proof (rule sorted_distinct_set_unique)
    show "sorted (map encodeUtf8 ?a)" "sorted (map encodeUtf8 ?b)" by simp_all
    show "distinct (map encodeUtf8 ?a)" using assms(2,4) by (simp add: distinct_map)
    show "distinct (map encodeUtf8 ?b)" using assms(1,3,4) by (simp add: distinct_map)
    show "set (map encodeUtf8 ?a) = set (map encodeUtf8 ?b)" using assms(1) by simp
  qed
  moreover have "inj_on encodeUtf8 (set ?a \<union> set ?b)" using assms(1,4) by simp
  ultimately have "?a = ?b" by (simp add: inj_on_map_eq_map)
  then show ?thesis by (simp add: sortKeys_sort_key)
qed

lemma structEqArray_iff: "structEqArray xs ys \<longleftrightarrow> list_all2 structEq xs ys"
  by (induction xs arbitrary: ys) (auto split: list.splits simp: list_all2_Cons1)

lemma structEqObject_iff:
  "structEqObject kvs kws \<longleftrightarrow> (\<forall>(k, v)\<in>set kvs. \<exists>w. map_of kws k = Some w \<and> structEq v w)"
  by (induction kvs) (auto split: option.splits)

lemma structEqObject_keys:
  assumes "structEqObject kvs kws" and "length kvs = length kws"
    and "distinct (map fst kvs)" and "distinct (map fst kws)"
  shows "fst ` set kvs = fst ` set kws"
proof -
  have sub: "fst ` set kvs \<subseteq> fst ` set kws"
  proof
    fix k assume "k \<in> fst ` set kvs"
    then obtain v where "(k, v) \<in> set kvs" by auto
    with assms(1) obtain w where "map_of kws k = Some w"
      by (auto simp: structEqObject_iff)
    then show "k \<in> fst ` set kws" by (force dest: map_of_SomeD)
  qed
  have "card (fst ` set kvs) = length kvs" using assms(3) distinct_card [of "map fst kvs"] by simp
  moreover have "card (fst ` set kws) = length kws" using assms(4) distinct_card [of "map fst kws"] by simp
  ultimately show ?thesis using sub assms(2) by (simp add: card_subset_eq)
qed

lemma keysOf_sub:
  "(k, v) \<in> set kvs \<Longrightarrow> keysOf v \<subseteq> keysOfObject kvs"
  "(k, v) \<in> set kvs \<Longrightarrow> k \<in> keysOfObject kvs"
  by (induction kvs) auto

lemma keysOfArray_sub: "x \<in> set xs \<Longrightarrow> keysOf x \<subseteq> keysOfArray xs"
  by (induction xs) auto

lemma wfObject_mem: "wfObject kvs \<Longrightarrow> (k, v) \<in> set kvs \<Longrightarrow> wfValue v"
  by (induction kvs) auto

lemma encodeValue_deep:
  "depth > m \<Longrightarrow> encodeValue k2i m v depth buf =
     Inl (KodaEncodeError Maximum_nesting_depth_exceeded (length buf))"
  by (subst encodeValue.simps) simp

lemma encodeValue_VArr:
  "\<not> depth > m \<Longrightarrow> encodeValue k2i m (VArr xs) depth buf =
     encodeArray k2i m xs depth (buf @ [0x10] @ u32be (length xs))"
  by (subst encodeValue.simps) simp

lemma encodeValue_VObj:
  "\<not> depth > m \<Longrightarrow> encodeValue k2i m (VObj p kvs) depth buf =
     encodeObject k2i m kvs (sortKeys (map fst kvs)) depth
       (buf @ [0x11] @ u32be (length (sortKeys (map fst kvs))))"
  by (subst encodeValue.simps) simp

lemma encodeValue_structEq:
  "\<forall>w. structEq v w \<longrightarrow> wfValue v \<longrightarrow> wfValue w \<longrightarrow> inj_on encodeUtf8 (keysOf v) \<longrightarrow>
     encodeValue k2i m v depth buf = encodeValue k2i m w depth buf"
  "\<forall>ys. structEqArray xs ys \<longrightarrow> wfArray xs \<longrightarrow> wfArray ys \<longrightarrow> inj_on encodeUtf8 (keysOfArray xs) \<longrightarrow>
     encodeArray k2i m xs depth buf = encodeArray k2i m ys depth buf"
  "\<forall>kws. (\<forall>k\<in>set keys. \<exists>v w. map_of kvs k = Some v \<and> map_of kws k = Some w \<and> structEq v w
              \<and> wfValue v \<and> wfValue w \<and> inj_on encodeUtf8 (keysOf v)) \<longrightarrow>
     encodeObject k2i m kvs keys depth buf = encodeObject k2i m kws keys depth buf"
proof (induction k2i m v depth buf and k2i m xs depth buf and k2i m kvs keys depth buf
       rule: encodeValue_encodeArray_encodeObject.induct)
  case (1 k2i m v depth buf)
  show ?case
  proof (intro allI impI)
    fix w assume se: "structEq v w" and wv: "wfValue v" and ww: "wfValue w"
      and inj: "inj_on encodeUtf8 (keysOf v)"
    show "encodeValue k2i m v depth buf = encodeValue k2i m w depth buf"
    proof (cases "depth > m")
      case True
      then show ?thesis by (simp add: encodeValue_deep)
    next
      case False
      show ?thesis
      proof (cases v)
        case (VArr xs)
        with se obtain ys where w: "w = VArr ys" and a: "structEqArray xs ys"
          by (auto split: KodaValue.splits)
        have l: "length xs = length ys" using a by (simp add: structEqArray_iff list_all2_lengthD)
        have "encodeArray k2i m xs depth (buf @ [0x10] @ u32be (length xs))
            = encodeArray k2i m ys depth (buf @ [0x10] @ u32be (length xs))"
          using "1.IH"(1) [OF False VArr] a wv ww inj VArr w by simp
        then show ?thesis
          by (simp add: encodeValue_VArr False VArr w l)
      next
        case (VObj p kvs)
        with se obtain q kws where w: "w = VObj q kws" and l: "length kvs = length kws"
          and a: "structEqObject kvs kws"
          by (auto split: KodaValue.splits)
        have d: "distinct (map fst kvs)" "distinct (map fst kws)" and wo: "wfObject kvs" "wfObject kws"
          using wv ww VObj w by auto
        have ks: "fst ` set kvs = fst ` set kws"
          by (rule structEqObject_keys [OF a l d])
        have "inj_on encodeUtf8 (fst ` set kvs)"
          by (rule inj_on_subset [OF inj]) (auto simp: VObj keysOf_sub(2))
        then have sk: "sortKeys (map fst kvs) = sortKeys (map fst kws)"
          using ks d by (intro sortKeys_unique) simp_all
        have pre: "\<forall>k\<in>set (sortKeys (map fst kvs)). \<exists>v w. map_of kvs k = Some v \<and> map_of kws k = Some w
            \<and> structEq v w \<and> wfValue v \<and> wfValue w \<and> inj_on encodeUtf8 (keysOf v)"
        proof
          fix k assume "k \<in> set (sortKeys (map fst kvs))"
          then have "k \<in> fst ` set kvs" by simp
          then obtain v' where m1: "map_of kvs k = Some v'"
            by (metis domD dom_map_of_conv_image_fst)
          then have in1: "(k, v') \<in> set kvs" by (rule map_of_SomeD)
          with a obtain w' where m2: "map_of kws k = Some w'" and s: "structEq v' w'"
            by (auto simp: structEqObject_iff)
          have in2: "(k, w') \<in> set kws" using m2 by (rule map_of_SomeD)
          have "inj_on encodeUtf8 (keysOf v')"
            by (rule inj_on_subset [OF inj]) (use keysOf_sub(1) [OF in1] VObj in auto)
          then show "\<exists>v w. map_of kvs k = Some v \<and> map_of kws k = Some w
            \<and> structEq v w \<and> wfValue v \<and> wfValue w \<and> inj_on encodeUtf8 (keysOf v)"
            using m1 m2 s wfObject_mem [OF wo(1) in1] wfObject_mem [OF wo(2) in2] by blast
        qed
        have "encodeObject k2i m kvs (sortKeys (map fst kvs)) depth
                 (buf @ [0x11] @ u32be (length (sortKeys (map fst kvs))))
            = encodeObject k2i m kws (sortKeys (map fst kvs)) depth
                 (buf @ [0x11] @ u32be (length (sortKeys (map fst kvs))))"
          using "1.IH"(2) [OF False VObj] pre by blast
        then show ?thesis
          by (simp add: encodeValue_VObj False VObj w sk [symmetric])
      qed (use se in \<open>auto\<close>)
    qed
  qed
next
  case (2 k2i maxDepth depth buf)
  then show ?case by simp
next
  case (3 k2i m item xs depth buf)
  show ?case
  proof (intro allI impI)
    fix ys assume a: "structEqArray (item # xs) ys" and wx: "wfArray (item # xs)" and wy: "wfArray ys"
      and inj: "inj_on encodeUtf8 (keysOfArray (item # xs))"
    from a obtain w ws where ys: "ys = w # ws" and s: "structEq item w" and r: "structEqArray xs ws"
      by (auto split: list.splits)
    have i1: "inj_on encodeUtf8 (keysOf item)" and i2: "inj_on encodeUtf8 (keysOfArray xs)"
      using inj by (auto intro: inj_on_subset)
    have h: "encodeValue k2i m item (Suc depth) buf = encodeValue k2i m w (Suc depth) buf"
      using "3.IH"(1) s wx wy ys i1 by simp
    show "encodeArray k2i m (item # xs) depth buf = encodeArray k2i m ys depth buf"
    proof (cases "encodeValue k2i m item (Suc depth) buf")
      case (Inl e)
      moreover from Inl h have "encodeValue k2i m w (Suc depth) buf = Inl e" by simp
      ultimately show ?thesis by (simp add: ys)
    next
      case (Inr buf')
      have "encodeArray k2i m xs depth buf' = encodeArray k2i m ws depth buf'"
        using "3.IH"(2) [of buf'] Inr r wx wy ys i2 by simp
      moreover from Inr h have "encodeValue k2i m w (Suc depth) buf = Inr buf'" by simp
      ultimately show ?thesis using Inr by (simp add: ys)
    qed
  qed
next
  case (4 k2i maxDepth kvs depth buf)
  then show ?case by simp
next
  case (5 k2i m kvs key keys depth buf)
  show ?case
  proof (intro allI impI)
    fix kws
    assume pre: "\<forall>k\<in>set (key # keys). \<exists>v w. map_of kvs k = Some v \<and> map_of kws k = Some w \<and> structEq v w
              \<and> wfValue v \<and> wfValue w \<and> inj_on encodeUtf8 (keysOf v)"
    then obtain v w where v: "map_of kvs key = Some v" and w: "map_of kws key = Some w"
      and s: "structEq v w" "wfValue v" "wfValue w" "inj_on encodeUtf8 (keysOf v)"
      by auto
    have rest: "\<forall>k\<in>set keys. \<exists>v w. map_of kvs k = Some v \<and> map_of kws k = Some w \<and> structEq v w
              \<and> wfValue v \<and> wfValue w \<and> inj_on encodeUtf8 (keysOf v)"
      using pre by simp
    show "encodeObject k2i m kvs (key # keys) depth buf = encodeObject k2i m kws (key # keys) depth buf"
    proof (cases "k2i key")
      case None
      then show ?thesis by simp
    next
      case (Some idx)
      have h: "encodeValue k2i m v (Suc depth) (buf @ u32be idx) = encodeValue k2i m w (Suc depth) (buf @ u32be idx)"
        using "5.IH"(1) [OF Some v] s by simp
      show ?thesis
      proof (cases "encodeValue k2i m v (Suc depth) (buf @ u32be idx)")
        case (Inl e)
        moreover from Inl h have "encodeValue k2i m w (Suc depth) (buf @ u32be idx) = Inl e" by simp
        ultimately show ?thesis by (simp add: Some v w)
      next
        case (Inr buf')
        have "encodeObject k2i m kvs keys depth buf' = encodeObject k2i m kws keys depth buf'"
          using "5.IH"(2) [OF Some v, of buf'] Inr rest by simp
        moreover from Inr h have "encodeValue k2i m w (Suc depth) (buf @ u32be idx) = Inr buf'" by simp
        ultimately show ?thesis using Inr by (simp add: Some v w)
      qed
    qed
  qed
qed

lemma keysOfObject_eq: "keysOfObject kvs = fst ` set kvs \<union> (\<Union>v\<in>snd ` set kvs. keysOf v)"
  by (induction kvs) (force+)

lemma keysOfArray_eq: "keysOfArray xs = (\<Union>v\<in>set xs. keysOf v)"
  by (induction xs) auto

lemma keysOf_structEq:
  "\<forall>w. structEq v w \<longrightarrow> wfValue v \<longrightarrow> wfValue w \<longrightarrow> keysOf v = keysOf w"
  "\<forall>ys. structEqArray xs ys \<longrightarrow> wfArray xs \<longrightarrow> wfArray ys \<longrightarrow> keysOfArray xs = keysOfArray ys"
  "\<forall>kws. structEqObject kvs kws \<longrightarrow> wfObject kvs \<longrightarrow> wfObject kws \<longrightarrow>
     (\<forall>(k, v)\<in>set kvs. \<forall>w. map_of kws k = Some w \<longrightarrow> keysOf v = keysOf w)"
proof (induction v and xs and kvs rule: wfValue_wfArray_wfObject.induct)
  case (1 xs)
  then show ?case by (auto split: KodaValue.splits)
next
  case (2 p kvs)
  show ?case
  proof (intro allI impI)
    fix w assume se: "structEq (VObj p kvs) w" and wv: "wfValue (VObj p kvs)" and ww: "wfValue w"
    from se obtain q kws where w: "w = VObj q kws" and l: "length kvs = length kws"
      and a: "structEqObject kvs kws"
      by (auto split: KodaValue.splits)
    have d: "distinct (map fst kvs)" "distinct (map fst kws)" and wo: "wfObject kvs" "wfObject kws"
      using wv ww w by auto
    have ks: "fst ` set kvs = fst ` set kws"
      by (rule structEqObject_keys [OF a l d])
    have vals: "\<forall>(k, v)\<in>set kvs. \<forall>w. map_of kws k = Some w \<longrightarrow> keysOf v = keysOf w"
      using 2 a wo by blast
    have "(\<Union>v\<in>snd ` set kvs. keysOf v) = (\<Union>v\<in>snd ` set kws. keysOf v)"
    proof (intro equalityI subsetI)
      fix x assume "x \<in> (\<Union>v\<in>snd ` set kvs. keysOf v)"
      then obtain k v where kv: "(k, v) \<in> set kvs" "x \<in> keysOf v" by auto
      with a obtain w' where m: "map_of kws k = Some w'" by (auto simp: structEqObject_iff)
      with vals kv have "x \<in> keysOf w'" by auto
      moreover have "(k, w') \<in> set kws" using m by (rule map_of_SomeD)
      ultimately show "x \<in> (\<Union>v\<in>snd ` set kws. keysOf v)" by force
    next
      fix x assume "x \<in> (\<Union>v\<in>snd ` set kws. keysOf v)"
      then obtain k w' where kw: "(k, w') \<in> set kws" "x \<in> keysOf w'" by auto
      then have "k \<in> fst ` set kvs" using ks by force
      then obtain v where kv: "(k, v) \<in> set kvs" by auto
      have "map_of kws k = Some w'" using d(2) kw(1) by simp
      with vals kv kw have "x \<in> keysOf v" by auto
      then show "x \<in> (\<Union>v\<in>snd ` set kvs. keysOf v)" using kv by force
    qed
    then show "keysOf (VObj p kvs) = keysOf w"
      using ks by (simp add: w keysOfObject_eq)
  qed
next
  case (8 v xs)
  then show ?case by (auto split: list.splits)
next
  case (10 k v kvs)
  show ?case
  proof (intro allI impI)
    fix kws assume a: "structEqObject ((k, v) # kvs) kws" and w1: "wfObject ((k, v) # kvs)" and w2: "wfObject kws"
    from a obtain w where m: "map_of kws k = Some w" and s: "structEq v w" and r: "structEqObject kvs kws"
      by (auto split: option.splits)
    have "wfValue w" using wfObject_mem [OF w2 map_of_SomeD [OF m]] .
    then have "keysOf v = keysOf w" using "10.IH"(1) s w1 by simp
    moreover have "\<forall>(k, v)\<in>set kvs. \<forall>w. map_of kws k = Some w \<longrightarrow> keysOf v = keysOf w"
      using "10.IH"(2) r w1 w2 by simp
    ultimately show "\<forall>(k, v)\<in>set ((k, v) # kvs). \<forall>w. map_of kws k = Some w \<longrightarrow> keysOf v = keysOf w"
      using m by auto
  qed
qed auto

section \<open>Evaluating the encoder on given values\<close>

lemma be_bytes_numeral: "be_bytes (numeral k) n = be_bytes (pred_numeral k) (n div 256) @ [of_nat n]"
  by (simp only: numeral_eq_Suc be_bytes.simps)

lemma u32be_bytes:
  "u32be n = [of_nat (n div 256 div 256 div 256), of_nat (n div 256 div 256), of_nat (n div 256), of_nat n]"
  by (simp add: u32be_def be_bytes_numeral)

lemmas encode_eval = encode_def Let_def encodeValue.simps keyToIndex_def writeDictionary_def
  compareKeys_def encodeUtf8_def isHigh_def isLow_def utf8OfCodePoint_def js_def
  MAGIC_def VERSION_def u32be_bytes setAdd_def upt_conv_Cons

section \<open>UTF-8 encoding of well-formed strings\<close>

text \<open>
  Decoding the UTF-8 encoding of a string gives back its code points, and the code points
  of a well-formed string determine the string: \<open>encodeUtf8\<close> is injective on well-formed
  strings.
\<close>

definition scalar :: "nat \<Rightarrow> bool" where
  "scalar cp = (cp < 0x110000 \<and> \<not> (0xD800 \<le> cp \<and> cp \<le> 0xDFFF))"

lemma byte_of_nat: "x < 256 \<Longrightarrow> unat (of_nat x :: byte) = x"
  by (simp add: unat_of_nat)

lemma utf8_one:
  assumes "cp < 0x80"
  shows "utf8CodePoints (utf8OfCodePoint cp @ rest) = map_option ((#) cp) (utf8CodePoints rest)"
  using assms by (simp add: utf8OfCodePoint_def word_less_nat_alt byte_of_nat)

lemma utf8_two:
  assumes "0x80 \<le> cp" and "cp < 0x800"
  shows "utf8CodePoints (utf8OfCodePoint cp @ rest) = map_option ((#) cp) (utf8CodePoints rest)"
proof -
  let ?b = "of_nat (0xC0 + cp div 64) :: byte" and ?c = "of_nat (0x80 + cp mod 64) :: byte"
  have b: "unat ?b = 0xC0 + cp div 64" using assms by (intro byte_of_nat) simp
  have c: "unat ?c = 0x80 + cp mod 64" by (intro byte_of_nat) simp
  have "\<not> ?b < 0x80" "0xC2 \<le> ?b" "?b \<le> 0xDF" "isCont ?c"
    using assms by (simp_all add: word_less_nat_alt word_le_nat_alt b c isCont_def del: of_nat_add)
  then show ?thesis
    using assms by (simp add: utf8OfCodePoint_def b c del: of_nat_add)
qed

lemma split3: "(cp::nat) = (cp div 4096) * 4096 + (cp div 64 mod 64) * 64 + cp mod 64"
proof -
  have "cp = (cp div 64) * 64 + cp mod 64" by simp
  moreover have "cp div 64 = (cp div 64 div 64) * 64 + cp div 64 mod 64" by simp
  moreover have "cp div 64 div 64 = cp div 4096" by (simp add: div_mult2_eq [symmetric])
  ultimately show ?thesis by linarith
qed

lemma utf8CodePoints_3:
  assumes "\<not> b < 0x80" and "\<not> (0xC2 \<le> b \<and> b \<le> 0xDF)" and "0xE0 \<le> b" and "b \<le> 0xEF"
    and "(if b = 0xE0 then 0xA0 else 0x80) \<le> b1" and "b1 \<le> (if b = 0xED then 0x9F else 0xBF)"
    and "isCont b2"
  shows "utf8CodePoints (b # b1 # b2 # r) =
    map_option ((#) ((unat b - 0xE0) * 4096 + (unat b1 - 0x80) * 64 + (unat b2 - 0x80))) (utf8CodePoints r)"
  using assms by (auto simp: word_le_nat_alt word_less_nat_alt split: if_splits)

lemma utf8CodePoints_4:
  assumes "\<not> b < 0x80" and "\<not> (0xC2 \<le> b \<and> b \<le> 0xDF)" and "\<not> (0xE0 \<le> b \<and> b \<le> 0xEF)"
    and "0xF0 \<le> b" and "b \<le> 0xF4"
    and "(if b = 0xF0 then 0x90 else 0x80) \<le> b1" and "b1 \<le> (if b = 0xF4 then 0x8F else 0xBF)"
    and "isCont b2" and "isCont b3"
  shows "utf8CodePoints (b # b1 # b2 # b3 # r) =
    map_option ((#) ((unat b - 0xF0) * 262144 + (unat b1 - 0x80) * 4096 + (unat b2 - 0x80) * 64
      + (unat b3 - 0x80))) (utf8CodePoints r)"
  using assms by (auto simp: word_le_nat_alt word_less_nat_alt split: if_splits)

lemma utf8_three:
  assumes "0x800 \<le> cp" and "cp < 0x10000" and "\<not> (0xD800 \<le> cp \<and> cp \<le> 0xDFFF)"
  shows "utf8CodePoints (utf8OfCodePoint cp @ rest) = map_option ((#) cp) (utf8CodePoints rest)"
proof -
  define x y z where "x = cp div 4096" and "y = cp div 64 mod 64" and "z = cp mod 64"
  have cp: "cp = x * 4096 + y * 64 + z" unfolding x_def y_def z_def by (rule split3)
  have yz: "y < 64" "z < 64" by (simp_all add: y_def z_def)
  let ?b = "of_nat (0xE0 + x) :: byte" and ?c = "of_nat (0x80 + y) :: byte"
    and ?d = "of_nat (0x80 + z) :: byte"
  have x: "x < 16" using assms(2) cp by simp
  have b: "unat ?b = 0xE0 + x" using x by (intro byte_of_nat) simp
  have c: "unat ?c = 0x80 + y" using yz by (intro byte_of_nat) simp
  have d: "unat ?d = 0x80 + z" using yz by (intro byte_of_nat) simp
  have e0: "?b = 0xE0 \<longleftrightarrow> x = 0" and ed: "?b = 0xED \<longleftrightarrow> x = 13"
    using b by (auto simp: word_unat_eq_iff simp del: of_nat_add)
  have 1: "\<not> ?b < 0x80" "\<not> (0xC2 \<le> ?b \<and> ?b \<le> 0xDF)" "0xE0 \<le> ?b" "?b \<le> 0xEF" "isCont ?d"
    using x yz by (simp_all add: word_less_nat_alt word_le_nat_alt b d isCont_def del: of_nat_add)
  have "x = 0 \<Longrightarrow> 32 \<le> y" using assms(1) cp yz by simp
  moreover have "x = 13 \<Longrightarrow> y \<le> 31" using assms(2,3) cp yz by simp
  ultimately have 2: "(if ?b = 0xE0 then 0xA0 else 0x80) \<le> ?c" "?c \<le> (if ?b = 0xED then 0x9F else 0xBF)"
    using yz by (auto simp: e0 ed word_le_nat_alt c simp del: of_nat_add)
  have v: "(unat ?b - 0xE0) * 4096 + (unat ?c - 0x80) * 64 + (unat ?d - 0x80) = cp"
    unfolding b c d cp by simp
  have "utf8OfCodePoint cp = [?b, ?c, ?d]"
    using assms(1,2) by (simp add: utf8OfCodePoint_def x_def y_def z_def del: of_nat_add)
  then show ?thesis
    using utf8CodePoints_3 [OF 1(1-4) 2 1(5), of rest] v by (simp del: of_nat_add)
qed

lemma split4:
  "(cp::nat) = (cp div 262144) * 262144 + (cp div 4096 mod 64) * 4096 + (cp div 64 mod 64) * 64 + cp mod 64"
proof -
  have "cp div 4096 = (cp div 4096 div 64) * 64 + cp div 4096 mod 64" by simp
  moreover have "cp div 4096 div 64 = cp div 262144" by (simp add: div_mult2_eq [symmetric])
  ultimately show ?thesis using split3 [of cp] by linarith
qed

lemma utf8_four:
  assumes "0x10000 \<le> cp" and "cp < 0x110000"
  shows "utf8CodePoints (utf8OfCodePoint cp @ rest) = map_option ((#) cp) (utf8CodePoints rest)"
proof -
  define w x y z where "w = cp div 262144" and "x = cp div 4096 mod 64" and "y = cp div 64 mod 64"
    and "z = cp mod 64"
  have cp: "cp = w * 262144 + x * 4096 + y * 64 + z" unfolding w_def x_def y_def z_def by (rule split4)
  have xyz: "x < 64" "y < 64" "z < 64" by (simp_all add: x_def y_def z_def)
  let ?a = "of_nat (0xF0 + w) :: byte" and ?b = "of_nat (0x80 + x) :: byte"
    and ?c = "of_nat (0x80 + y) :: byte" and ?d = "of_nat (0x80 + z) :: byte"
  have w: "w \<le> 4" using assms(2) cp by simp
  have a: "unat ?a = 0xF0 + w" using w by (intro byte_of_nat) simp
  have b: "unat ?b = 0x80 + x" using xyz by (intro byte_of_nat) simp
  have c: "unat ?c = 0x80 + y" using xyz by (intro byte_of_nat) simp
  have d: "unat ?d = 0x80 + z" using xyz by (intro byte_of_nat) simp
  have e0: "?a = 0xF0 \<longleftrightarrow> w = 0" and e4: "?a = 0xF4 \<longleftrightarrow> w = 4"
    using a by (auto simp: word_unat_eq_iff simp del: of_nat_add)
  have 1: "\<not> ?a < 0x80" "\<not> (0xC2 \<le> ?a \<and> ?a \<le> 0xDF)" "\<not> (0xE0 \<le> ?a \<and> ?a \<le> 0xEF)"
    "0xF0 \<le> ?a" "?a \<le> 0xF4" "isCont ?c" "isCont ?d"
    using w xyz by (simp_all add: word_less_nat_alt word_le_nat_alt a c d isCont_def del: of_nat_add)
  have "w = 0 \<Longrightarrow> 16 \<le> x" using assms(1) cp xyz by simp
  moreover have "w = 4 \<Longrightarrow> x \<le> 15" using assms(2) cp xyz by simp
  ultimately have 2: "(if ?a = 0xF0 then 0x90 else 0x80) \<le> ?b" "?b \<le> (if ?a = 0xF4 then 0x8F else 0xBF)"
    using xyz by (auto simp: e0 e4 word_le_nat_alt b simp del: of_nat_add)
  have v: "(unat ?a - 0xF0) * 262144 + (unat ?b - 0x80) * 4096 + (unat ?c - 0x80) * 64 + (unat ?d - 0x80) = cp"
    unfolding a b c d cp by simp
  have "utf8OfCodePoint cp = [?a, ?b, ?c, ?d]"
    using assms(1,2) by (simp add: utf8OfCodePoint_def w_def x_def y_def z_def del: of_nat_add)
  then show ?thesis
    using utf8CodePoints_4 [OF 1(1-5) 2 1(6,7), of rest] v by (simp del: of_nat_add)
qed

lemma utf8CodePoints_one:
  "scalar cp \<Longrightarrow> utf8CodePoints (utf8OfCodePoint cp @ rest) = map_option ((#) cp) (utf8CodePoints rest)"
  using utf8_one [of cp rest] utf8_two [of cp rest] utf8_three [of cp rest] utf8_four [of cp rest]
  unfolding scalar_def by linarith

lemma unat16_bound: "unat (c :: 16 word) < 65536"
  using unsigned_less [of c, where ?'a = nat] by simp

lemma scalar_codePoints: "cp \<in> set (codePoints s) \<Longrightarrow> scalar cp"
proof (induction s rule: codePoints.induct)
  case 1
  then show ?case by simp
next
  case (2 c)
  then show ?case
    using unat16_bound [of c]
    by (auto simp: scalar_def isHigh_def isLow_def word_le_nat_alt split: if_splits)
next
  case (3 c d r)
  then show ?case
    using unat16_bound [of c] unat16_bound [of d]
    by (auto simp: scalar_def isHigh_def isLow_def word_le_nat_alt split: if_splits)
qed

lemma utf8CodePoints_concat:
  "\<forall>cp\<in>set cps. scalar cp \<Longrightarrow>
   utf8CodePoints (concat (map utf8OfCodePoint cps) @ rest) = map_option ((@) cps) (utf8CodePoints rest)"
proof (induction cps)
  case Nil
  then show ?case by (simp add: option.map_ident)
next
  case (Cons cp cps)
  then show ?case
    by (simp add: utf8CodePoints_one option.map_comp comp_def)
qed

lemma utf8CodePoints_encodeUtf8: "utf8CodePoints (encodeUtf8 s) = Some (codePoints s)"
  using utf8CodePoints_concat [of "codePoints s" "[]"] scalar_codePoints [of _ s]
  by (simp add: encodeUtf8_def)

lemma utf16_codePoints: "wellFormed s \<Longrightarrow> concat (map utf16OfCodePoint (codePoints s)) = s"
proof (induction s rule: codePoints.induct)
  case 1
  then show ?case by simp
next
  case (2 c)
  then show ?case using unat16_bound [of c] by (simp add: utf16OfCodePoint_def)
next
  case (3 c d r)
  show ?case
  proof (cases "isHigh c")
    case True
    then have l: "isLow d" and r: "wellFormed r" using "3.prems" by simp_all
    define hi lo where "hi = unat c - 0xD800" and "lo = unat d - 0xDC00"
    have hi: "unat c = 0xD800 + hi" "hi < 0x400"
      using True by (auto simp: hi_def isHigh_def word_le_nat_alt)
    have lo: "unat d = 0xDC00 + lo" "lo < 0x400"
      using l by (auto simp: lo_def isLow_def word_le_nat_alt)
    have cp: "codePoints (c # d # r) = (0x10000 + hi * 0x400 + lo) # codePoints r"
      using True l by (simp add: hi_def lo_def)
    have "utf16OfCodePoint (0x10000 + hi * 0x400 + lo) = [of_nat (unat c), of_nat (unat d)]"
      using hi lo by (simp add: utf16OfCodePoint_def del: of_nat_add)
    then have "utf16OfCodePoint (0x10000 + (unat c - 0xD800) * 0x400 + (unat d - 0xDC00)) = [c, d]"
      by (simp add: hi_def lo_def)
    then show ?thesis
      using "3.IH"(1) True l r by simp
  next
    case False
    then have nl: "\<not> isLow c" and r: "wellFormed (d # r)" using "3.prems" by simp_all
    have "utf16OfCodePoint (unat c) = [c]"
      using unat16_bound [of c] by (simp add: utf16OfCodePoint_def)
    then show ?thesis
      using "3.IH"(2) False nl r by simp
  qed
qed

lemma encodeUtf8_inj:
  assumes "wellFormed s" and "wellFormed t" and "encodeUtf8 s = encodeUtf8 t"
  shows "s = t"
proof -
  have "Some (codePoints s) = Some (codePoints t)"
    using assms(3) utf8CodePoints_encodeUtf8 [of s] utf8CodePoints_encodeUtf8 [of t] by simp
  then have "concat (map utf16OfCodePoint (codePoints s)) = concat (map utf16OfCodePoint (codePoints t))"
    by simp
  then show ?thesis using assms(1,2) by (simp add: utf16_codePoints)
qed

section \<open>Canonical encoding (claim C1)\<close>

lemma encode_canonical_inj:
  assumes "wfValue v1" and "wfValue v2" and "structEq v1 v2" and "inj_on encodeUtf8 (keysOf v1)"
  shows "encode v1 maxDepth = encode v2 maxDepth"
proof -
  have k: "keysOf v1 = keysOf v2" using keysOf_structEq(1) assms(1-3) by blast
  have "sortKeys (collectKeys v1 []) = sortKeys (collectKeys v2 [])"
    using assms(4) k by (intro sortKeys_unique) (simp_all add: set_collectKeys distinct_collectKeys)
  then show ?thesis
    using encodeValue_structEq(1) assms by (simp add: encode_def Let_def)
qed

text \<open>
  Claim C1. For any two values \<open>v1\<close> and \<open>v2\<close> of the data model (every object has distinct
  keys, and the keys are Unicode text) that are structurally equal, \<open>encode\<close> gives the same
  result for both, whatever the order of the keys in their objects: byte-for-byte the same
  output (or, beyond \<open>maxDepth\<close>, the same error).
\<close>

theorem encode_canonical:
  assumes "wfValue v1" and "wfValue v2" and "structEq v1 v2" and "\<forall>k\<in>keysOf v1. wellFormed k"
  shows "encode v1 maxDepth = encode v2 maxDepth"
proof -
  have "inj_on encodeUtf8 (keysOf v1)"
    using assms(4) by (auto intro!: inj_onI encodeUtf8_inj)
  with assms(1-3) show ?thesis by (rule encode_canonical_inj)
qed

theorem encode_canonical_witness:
  "wfValue (VObj ObjectPrototype [(js ''b'', VNull), (js ''a'', VBool True)])
   \<and> wfValue (VObj ObjectPrototype [(js ''a'', VBool True), (js ''b'', VNull)])
   \<and> structEq (VObj ObjectPrototype [(js ''b'', VNull), (js ''a'', VBool True)])
        (VObj ObjectPrototype [(js ''a'', VBool True), (js ''b'', VNull)])
   \<and> wellFormed (js ''a'') \<and> wellFormed (js ''b'')
   \<and> encode (VObj ObjectPrototype [(js ''b'', VNull), (js ''a'', VBool True)]) 256
       = encode (VObj ObjectPrototype [(js ''a'', VBool True), (js ''b'', VNull)]) 256"
proof -
  let ?A = "VObj ObjectPrototype [(js ''b'', VNull), (js ''a'', VBool True)]"
  let ?B = "VObj ObjectPrototype [(js ''a'', VBool True), (js ''b'', VNull)]"
  have 1: "wfValue ?A" and 2: "wfValue ?B" and 3: "structEq ?A ?B"
    by (simp_all add: js_def)
  have 4: "wellFormed (js ''a'')" "wellFormed (js ''b'')"
    by (simp_all add: js_def isHigh_def isLow_def)
  then have 5: "\<forall>k\<in>keysOf ?A. wellFormed k" by simp
  from encode_canonical [OF 1 2 3 5, of 256] 1 2 3 4 show ?thesis by blast
qed

text \<open>
  Outside the data model the encoder is not canonical. \<^verbatim>\<open>TextEncoder\<close> encodes every
  unpaired surrogate as U+FFFD, so the keys \<^verbatim>\<open>"\uD800"\<close> and \<^verbatim>\<open>"\uD801"\<close> (which the
  text parsers produce from \<^verbatim>\<open>\uXXXX\<close> escapes) compare equal, the stable sort leaves them
  in insertion order, the dictionary stores \<^verbatim>\<open>EF BF BD\<close> twice, and the two key orders of
  one object are encoded to different bytes.
\<close>

lemma encode_unpaired_surrogate_keys:
  "wfValue (VObj ObjectPrototype [([0xD800], VNull), ([0xD801], VBool True)])
   \<and> wfValue (VObj ObjectPrototype [([0xD801], VBool True), ([0xD800], VNull)])
   \<and> structEq (VObj ObjectPrototype [([0xD800], VNull), ([0xD801], VBool True)]) (VObj ObjectPrototype [([0xD801], VBool True), ([0xD800], VNull)])
   \<and> encode (VObj ObjectPrototype [([0xD800], VNull), ([0xD801], VBool True)]) 256
       = Inr [0x4B, 0x4F, 0x44, 0x41, 0x01, 0, 0, 0, 2, 0, 0, 0, 3, 0xEF, 0xBF, 0xBD, 0, 0, 0, 3, 0xEF, 0xBF, 0xBD,
              0x11, 0, 0, 0, 2, 0, 0, 0, 0, 0x01, 0, 0, 0, 1, 0x03]
   \<and> encode (VObj ObjectPrototype [([0xD801], VBool True), ([0xD800], VNull)]) 256
       = Inr [0x4B, 0x4F, 0x44, 0x41, 0x01, 0, 0, 0, 2, 0, 0, 0, 3, 0xEF, 0xBF, 0xBD, 0, 0, 0, 3, 0xEF, 0xBF, 0xBD,
              0x11, 0, 0, 0, 2, 0, 0, 0, 0, 0x03, 0, 0, 0, 1, 0x01]
   \<and> encode (VObj ObjectPrototype [([0xD800], VNull), ([0xD801], VBool True)]) 256
       \<noteq> encode (VObj ObjectPrototype [([0xD801], VBool True), ([0xD800], VNull)]) 256"
  by (simp add: encode_eval)

end
